theory Spec2Isabelle
  imports Complex_Main
begin

section \<open>Interpolation kernel of the map component\<close>

text \<open>
  The map component defines its numeric helpers as closures over JavaScript numbers.
  A finite JavaScript number denotes a rational, and the helpers use only \<open>+\<close>,
  \<open>-\<close>, \<open>*\<close>, \<open>/\<close> and comparisons, so in this section numbers are modelled as
  \<^typ>\<open>real\<close> with exact arithmetic. The frame loop of the next section, whose behaviour
  depends on how its additions round, is modelled with the rounding of the 64-bit format.

  \<open>lerp\<close> takes \<open>number | [number, number]\<close> arguments: two pairs are interpolated
  component-wise, two numbers directly, and any mixed call returns its first argument.
\<close>

datatype lerp_arg = Num real | Vec real real

fun lerp :: "lerp_arg \<Rightarrow> lerp_arg \<Rightarrow> real \<Rightarrow> lerp_arg" where
  "lerp (Vec a0 a1) (Vec b0 b1) t =
     Vec (a0 * (1.0 - t) + b0 * t) (a1 * (1.0 - t) + b1 * t)"
| "lerp (Num a) (Num b) t = Num (a * (1.0 - t) + b * t)"
| "lerp a b t = a"

definition easeInOutQuad :: "real \<Rightarrow> real" where
  "easeInOutQuad t = (if t < 0.5 then 2.0 * t * t else (4.0 - 2.0 * t) * t - 1.0)"

definition easeInCubic :: "real \<Rightarrow> real" where
  "easeInCubic t = t * t * t"

definition easeOutCubic :: "real \<Rightarrow> real" where
  "easeOutCubic t = 1 - (1 - t) ^ 3"

section \<open>The cinematic tour's frame loop\<close>

text \<open>
  \<open>startCinematicTour\<close> keeps two closure variables, \<open>animationIndex\<close> and
  \<open>animationTime\<close> (in seconds), and a table of eight animations, each with a name, a
  duration and a closure that poses the camera for a phase in \<open>[0, 1)\<close>. Only the name
  and the duration matter to the loop, so an animation is a record of these two.
\<close>

record animation =
  name :: string
  duration :: real

definition animations :: "animation list" where
  "animations =
    [\<lparr>name = ''South Luzon Approach'', duration = 4.0\<rparr>,
     \<lparr>name = ''Swoop to Makati CBD'', duration = 6.0\<rparr>,
     \<lparr>name = ''Orbit Makati'', duration = 5.0\<rparr>,
     \<lparr>name = ''Fly to Manila Bay'', duration = 5.0\<rparr>,
     \<lparr>name = ''Glide to BGC'', duration = 6.0\<rparr>,
     \<lparr>name = ''BGC Aerial View'', duration = 4.0\<rparr>,
     \<lparr>name = ''Transit to Ortigas'', duration = 5.0\<rparr>,
     \<lparr>name = ''Ascend to North Luzon'', duration = 5.0\<rparr>]"

record tour_state =
  animationIndex :: nat
  animationTime :: real

text \<open>
  The loop accumulates its time in JavaScript numbers, and whether the accumulated time
  has passed a duration depends on how each addition rounds. The loop's arithmetic is
  therefore modelled with the rounding of the 64-bit binary format: a result is rounded
  to the nearest number with 53 significant bits, a tie going to the even one. The
  loop's values lie between one sixty-fourth and 8, far from overflow and from subnormal
  numbers, which are not modelled.
\<close>

definition round_half_even :: "real \<Rightarrow> int" where
  "round_half_even x =
     (let f = \<lfloor>x\<rfloor>
      in if x - of_int f < 1 / 2 then f
         else if x - of_int f > 1 / 2 then f + 1
         else if even f then f else f + 1)"

definition round64 :: "real \<Rightarrow> real" where
  "round64 x =
     (if x = 0 then 0
      else let ulp = 2 powr of_int (\<lfloor>log 2 \<bar>x\<bar>\<rfloor> - 52)
           in of_int (round_half_even (x / ulp)) * ulp)"

definition fadd64 :: "real \<Rightarrow> real \<Rightarrow> real" where
  "fadd64 x y = round64 (x + y)"

definition fdiv64 :: "real \<Rightarrow> real \<Rightarrow> real" where
  "fdiv64 x y = round64 (x / y)"

text \<open>
  One call of \<open>animate\<close>, the body of one animation frame. Without a map the call
  returns and schedules nothing (\<open>Halted\<close>). With an empty table the index becomes
  \<open>NaN\<close> and reading \<open>current.duration\<close> throws (\<open>TypeError\<close>). Otherwise the index is
  normalised modulo the table length, the current animation is posed when the segment
  time is below its duration (recorded as the segment index and the phase), the time
  advances by \<open>1.0 / 60.0\<close>, and when it then strictly exceeds the duration the index is
  incremented and the time is set to \<open>0.0\<close>. The frame ends by scheduling the next
  frame.
\<close>

datatype frame_outcome =
    Halted
  | TypeError
  | Scheduled "(nat \<times> real) option" tour_state

definition animate :: "animation list \<Rightarrow> bool \<Rightarrow> tour_state \<Rightarrow> frame_outcome" where
  "animate anims mapRef st =
     (if \<not> mapRef then Halted
      else if anims = [] then TypeError
      else
        let idx = animationIndex st mod length anims;
            current = anims ! idx;
            call = (if animationTime st < duration current
                    then Some (idx, fdiv64 (animationTime st) (duration current)) else None);
            t = fadd64 (animationTime st) (fdiv64 1.0 60.0)
        in if t > duration current
           then Scheduled call \<lparr>animationIndex = idx + 1, animationTime = 0.0\<rparr>
           else Scheduled call \<lparr>animationIndex = idx, animationTime = t\<rparr>)"

text \<open>
  The loop is driven by the host's frame callbacks. A run is given by the list of
  frames that arrive, each with whether the map is still there; the result is the value
  of the two closure variables afterwards. A frame that halts or throws ends the loop.
\<close>

fun run_frames :: "animation list \<Rightarrow> bool list \<Rightarrow> tour_state \<Rightarrow> tour_state" where
  "run_frames anims [] st = st"
| "run_frames anims (m # ms) st =
     (case animate anims m st of
        Scheduled call st' \<Rightarrow> run_frames anims ms st'
      | _ \<Rightarrow> st)"

text \<open>
  The segment a frame works on: the index after the normalisation at the head of
  \<open>animate\<close>.
\<close>

definition current_index :: "animation list \<Rightarrow> tour_state \<Rightarrow> nat" where
  "current_index anims st = animationIndex st mod length anims"

text \<open>
  The specification's \<open>tick\<close>, written from its words for comparison with the frame
  loop: the segment time advances by the delta, and when it reaches the segment's
  duration the overflow is carried into the next segment, whose index wraps.
\<close>

definition carry_tick :: "animation list \<Rightarrow> real \<Rightarrow> tour_state \<Rightarrow> tour_state" where
  "carry_tick anims delta st =
     (let elapsed = animationTime st + delta;
          d = duration (anims ! animationIndex st)
      in if elapsed \<ge> d
         then \<lparr>animationIndex = (animationIndex st + 1) mod length anims,
               animationTime = elapsed - d\<rparr>
         else st\<lparr>animationTime := elapsed\<rparr>)"

text \<open>
  For the proofs about the built-in tour the loop is computed on integers. Every time
  the loop reaches there is a whole multiple of \<open>1 / 2 ^ 58\<close>, so a time is represented by
  that multiple: \<open>next58\<close> is the addition of the frame step with its rounding,
  \<open>durs58\<close> the durations of the table, \<open>frame58\<close> one frame and \<open>frames58\<close> a run of
  frames. The lemmas below show that the loop above computes the same.
\<close>

definition of58 :: "int \<Rightarrow> real" where
  "of58 N = of_int N / 2 ^ 58"

definition abs58 :: "nat \<times> int \<Rightarrow> tour_state" where
  "abs58 s = \<lparr>animationIndex = fst s, animationTime = of58 (snd s)\<rparr>"

definition tie_even :: "int \<Rightarrow> int \<Rightarrow> int \<Rightarrow> int" where
  "tie_even q r p =
     (if 2 * r < p then q else if 2 * r > p then q + 1 else if even q then q else q + 1)"

definition rnd :: "nat \<Rightarrow> int \<Rightarrow> int" where
  "rnd j M = tie_even (M div 2 ^ j) (M mod 2 ^ j) (2 ^ j)"

definition binade58 :: "int \<Rightarrow> nat" where
  "binade58 M =
     (if M < 9007199254740992 then 0
      else if M < 18014398509481984 then 1
      else if M < 36028797018963968 then 2
      else if M < 72057594037927936 then 3
      else if M < 144115188075855872 then 4
      else if M < 288230376151711744 then 5
      else if M < 576460752303423488 then 6
      else if M < 1152921504606846976 then 7
      else 8)"

definition shift58 :: "nat \<Rightarrow> int \<Rightarrow> int" where
  "shift58 j M = rnd j M * 2 ^ j"

definition round58 :: "int \<Rightarrow> int" where
  "round58 M = shift58 (binade58 M) M"

definition next58 :: "int \<Rightarrow> int" where
  "next58 N = round58 (N + 4803839602528529)"

definition durs58 :: "int list" where
  "durs58 =
     [1152921504606846976, 1729382256910270464, 1441151880758558720, 1441151880758558720,
      1729382256910270464, 1152921504606846976, 1441151880758558720, 1441151880758558720]"

definition pick58 :: "nat \<Rightarrow> int \<Rightarrow> nat \<times> int" where
  "pick58 idx M = (if durs58 ! idx < M then (idx + 1, 0) else (idx, M))"

definition frame58 :: "nat \<times> int \<Rightarrow> nat \<times> int" where
  "frame58 s = pick58 (fst s mod 8) (next58 (snd s))"

fun frames58 :: "nat \<Rightarrow> nat \<times> int \<Rightarrow> nat \<times> int" where
  "frames58 0 s = s"
| "frames58 (Suc n) s = frames58 n (frame58 s)"

text \<open>
  A state holds no overflow: its time is zero or does not exceed the duration of the
  segment the next frame works on.
\<close>

definition within_segment :: "animation list \<Rightarrow> tour_state \<Rightarrow> bool" where
  "within_segment anims st \<longleftrightarrow>
     animationTime st = 0 \<or> animationTime st \<le> duration (anims ! current_index anims st)"

section \<open>The section visibility hook\<close>

text \<open>
  \<open>useSectionVisibility\<close> holds three pieces of React state: the set of visible
  sections, the active section and the intersection ratio per section. Its observer
  callback \<open>handleIntersection\<close> receives a batch of entries. The state setters are
  applied in call order, so the batch is a left fold over the entries. The two optional
  callbacks of the hook are modelled by the lists of their invocations.

  An entry carries the \<open>data-section-id\<close> attribute of its target (absent, or a
  string), the \<open>isIntersecting\<close> flag and the intersection ratio.
\<close>

record entry =
  sectionIdAttr :: "string option"
  isIntersecting :: bool
  intersectionRatio :: real

record visibility_state =
  visibleSections :: "string set"
  activeSection :: "string option"
  sectionProgress :: "string \<rightharpoonup> real"
  sectionChangeCalls :: "string list"
  visibilityChangeCalls :: "(string \<times> bool) list"

definition initial_visibility :: visibility_state where
  "initial_visibility =
     \<lparr>visibleSections = {}, activeSection = None, sectionProgress = Map.empty,
      sectionChangeCalls = [], visibilityChangeCalls = []\<rparr>"

text \<open>
  The \<open>threshold\<close> option defaults to \<open>0.3\<close> when it is not given, and the comparison
  reads \<open>threshold || 0.3\<close>, which replaces a threshold of zero by \<open>0.3\<close> as well.
\<close>

definition effective_threshold :: "real option \<Rightarrow> real" where
  "effective_threshold opt =
     (let threshold = (case opt of None \<Rightarrow> 0.3 | Some v \<Rightarrow> v)
      in if threshold = 0 then 0.3 else threshold)"

text \<open>
  The handler skips an entry whose attribute is missing or empty
  (\<open>if (!sectionId) return\<close>).
\<close>

definition entry_section :: "entry \<Rightarrow> string option" where
  "entry_section e =
     (case sectionIdAttr e of
        None \<Rightarrow> None
      | Some sectionId \<Rightarrow> if sectionId = [] then None else Some sectionId)"

text \<open>
  The condition under which the handler sets the active section and calls
  \<open>onSectionChange\<close>: the entry is not skipped, it is intersecting, and its ratio is
  strictly above the threshold.
\<close>

definition sets_active :: "real option \<Rightarrow> entry \<Rightarrow> bool" where
  "sets_active threshold e \<longleftrightarrow>
     entry_section e \<noteq> None \<and> isIntersecting e
     \<and> intersectionRatio e > effective_threshold threshold"

definition handle_entry :: "real option \<Rightarrow> entry \<Rightarrow> visibility_state \<Rightarrow> visibility_state" where
  "handle_entry threshold e st =
     (case entry_section e of
        None \<Rightarrow> st
      | Some sectionId \<Rightarrow>
          let isVisible = isIntersecting e;
              ratio = intersectionRatio e;
              st1 = st\<lparr>visibleSections :=
                        (if isVisible then insert sectionId (visibleSections st)
                         else visibleSections st - {sectionId})\<rparr>;
              st2 = st1\<lparr>sectionProgress := (sectionProgress st1)(sectionId \<mapsto> ratio)\<rparr>;
              st3 = (if isVisible \<and> ratio > effective_threshold threshold
                     then st2\<lparr>activeSection := Some sectionId,
                              sectionChangeCalls := sectionChangeCalls st2 @ [sectionId]\<rparr>
                     else st2)
          in st3\<lparr>visibilityChangeCalls :=
                    visibilityChangeCalls st3 @ [(sectionId, isVisible)]\<rparr>)"

definition handleIntersection ::
    "real option \<Rightarrow> entry list \<Rightarrow> visibility_state \<Rightarrow> visibility_state" where
  "handleIntersection threshold entries st = fold (handle_entry threshold) entries st"

text \<open>
  The specification's choice of the active section, written from its words for
  comparison with the hook: none when no section is visible, otherwise the visible
  section of maximal ratio, the lowest position in the \<open>sections\<close> option winning a
  tie. The position in that list is the section's order index.
\<close>

definition ratio_of :: "(string \<rightharpoonup> real) \<Rightarrow> string \<Rightarrow> real" where
  "ratio_of progress s = (case progress s of None \<Rightarrow> 0 | Some r \<Rightarrow> r)"

definition focused_by_ratio ::
    "string list \<Rightarrow> string set \<Rightarrow> (string \<rightharpoonup> real) \<Rightarrow> string option" where
  "focused_by_ratio sections visible progress =
     (case filter (\<lambda>s. s \<in> visible) sections of
        [] \<Rightarrow> None
      | s # rest \<Rightarrow>
          Some (fold (\<lambda>c best. if ratio_of progress c > ratio_of progress best then c else best)
                  rest s))"

text \<open>Entries and a section list used in the worked examples.\<close>

definition page_sections :: "string list" where
  "page_sections = [''hero'', ''about'', ''projects'', ''skills'', ''experience'', ''contact'']"

definition section_entry :: "string \<Rightarrow> bool \<Rightarrow> real \<Rightarrow> entry" where
  "section_entry s flag r =
     \<lparr>sectionIdAttr = Some s, isIntersecting = flag, intersectionRatio = r\<rparr>"

section \<open>The map animation hook\<close>

text \<open>
  \<open>useMapAnimation\<close> keeps two refs: \<open>isAnimatingRef\<close> and \<open>animationPromiseRef\<close>, the
  latter holding the \<open>resolve\<close> and \<open>reject\<close> functions of the promise returned by the
  call in flight. Promises are numbered in order of creation. The world of the hook
  consists of the two refs, the next promise number, every invocation of a promise's
  \<open>resolve\<close> or \<open>reject\<close> in order, every call of the map's \<open>flyTo\<close>, and the map's
  one-time listeners for \<open>moveend\<close> and \<open>error\<close>, each identified by the number of the
  call that registered it.
\<close>

record map_region =
  regionName :: string
  center :: "real \<times> real"
  zoom :: real
  bearing :: real
  pitch :: real

record fly_options =
  flyCenter :: "real \<times> real"
  flyZoom :: real
  flyBearing :: real
  flyPitch :: real
  flyDuration :: real

datatype settlement = Resolved bool | Rejected string

record fly_world =
  isAnimatingRef :: bool
  animationPromiseRef :: "nat option"
  nextPromise :: nat
  settleCalls :: "(nat \<times> settlement) list"
  flyToCalls :: "fly_options list"
  moveendListeners :: "nat list"
  errorListeners :: "nat list"

definition initial_world :: fly_world where
  "initial_world =
     \<lparr>isAnimatingRef = False, animationPromiseRef = None, nextPromise = 0,
      settleCalls = [], flyToCalls = [], moveendListeners = [], errorListeners = []\<rparr>"

text \<open>
  \<open>flyToRegion\<close> creates a promise and runs its executor at once. The arguments of the
  model are whether the hook has a map instance, the configured duration, whether the
  map's \<open>flyTo\<close> throws (and what), and the region. The result is the new promise and
  the world after the executor has run. Without a map, or while \<open>isAnimatingRef\<close> is
  set, the executor resolves the promise with \<open>false\<close> and returns. Otherwise it sets
  the ref, stores the promise's functions, calls \<open>flyTo\<close> and registers the two
  listeners; an exception in that block clears \<open>isAnimatingRef\<close> and rejects the
  promise.
\<close>

definition flyToRegion ::
    "bool \<Rightarrow> real \<Rightarrow> string option \<Rightarrow> map_region \<Rightarrow> fly_world \<Rightarrow> nat \<times> fly_world" where
  "flyToRegion mapInstance animationDuration flyToThrows region w =
     (let promise = nextPromise w;
          w0 = w\<lparr>nextPromise := promise + 1\<rparr>
      in if \<not> mapInstance \<or> isAnimatingRef w0
         then (promise, w0\<lparr>settleCalls := settleCalls w0 @ [(promise, Resolved False)]\<rparr>)
         else
           let w1 = w0\<lparr>isAnimatingRef := True, animationPromiseRef := Some promise\<rparr>;
               w2 = w1\<lparr>flyToCalls := flyToCalls w1 @
                      [\<lparr>flyCenter = center region, flyZoom = zoom region,
                        flyBearing = bearing region, flyPitch = pitch region,
                        flyDuration = animationDuration\<rparr>]\<rparr>
           in case flyToThrows of
                Some error \<Rightarrow>
                  (promise, w2\<lparr>isAnimatingRef := False,
                               settleCalls := settleCalls w2 @ [(promise, Rejected error)]\<rparr>)
              | None \<Rightarrow>
                  (promise, w2\<lparr>moveendListeners := moveendListeners w2 @ [promise],
                               errorListeners := errorListeners w2 @ [promise]\<rparr>))"

text \<open>
  Both listeners end the same way: if \<open>animationPromiseRef\<close> holds a promise, settle
  it and clear the ref.
\<close>

definition settle_current :: "settlement \<Rightarrow> fly_world \<Rightarrow> fly_world" where
  "settle_current s w =
     (case animationPromiseRef w of
        None \<Rightarrow> w
      | Some promise \<Rightarrow>
          w\<lparr>settleCalls := settleCalls w @ [(promise, s)], animationPromiseRef := None\<rparr>)"

definition onMoveEnd :: "nat \<Rightarrow> fly_world \<Rightarrow> fly_world" where
  "onMoveEnd k w =
     settle_current (Resolved True)
       (w\<lparr>isAnimatingRef := False,
          moveendListeners := removeAll k (moveendListeners w),
          errorListeners := removeAll k (errorListeners w)\<rparr>)"

definition onError :: "string \<Rightarrow> nat \<Rightarrow> fly_world \<Rightarrow> fly_world" where
  "onError error k w =
     settle_current (Rejected error)
       (w\<lparr>isAnimatingRef := False,
          moveendListeners := removeAll k (moveendListeners w),
          errorListeners := removeAll k (errorListeners w)\<rparr>)"

text \<open>
  The map library is outside the repository. Its event dispatch is modelled by its
  documented behaviour for listeners registered with \<open>once\<close>: an event runs the
  listeners registered at that moment in registration order, removing each one before
  it is called.
\<close>

definition fire_moveend :: "fly_world \<Rightarrow> fly_world" where
  "fire_moveend w =
     fold (\<lambda>k v. onMoveEnd k (v\<lparr>moveendListeners := removeAll k (moveendListeners v)\<rparr>))
       (moveendListeners w) w"

definition fire_error :: "string \<Rightarrow> fly_world \<Rightarrow> fly_world" where
  "fire_error error w =
     fold (\<lambda>k v. onError error k (v\<lparr>errorListeners := removeAll k (errorListeners v)\<rparr>))
       (errorListeners w) w"

text \<open>The cleanup effect that runs when the component using the hook unmounts.\<close>

definition unmount :: "fly_world \<Rightarrow> fly_world" where
  "unmount w = (settle_current (Resolved False) w)\<lparr>isAnimatingRef := False\<rparr>"

text \<open>
  What can happen to the hook: a call of \<open>flyToRegion\<close> (with or without a map
  instance, with \<open>flyTo\<close> throwing or not), a \<open>moveend\<close> event, an \<open>error\<close> event, the
  unmount.
\<close>

datatype fly_event =
    CallFlyTo bool "string option" map_region
  | MoveEnd
  | ErrorEvent string
  | Unmount

fun step :: "real \<Rightarrow> fly_event \<Rightarrow> fly_world \<Rightarrow> fly_world" where
  "step d (CallFlyTo mapInstance flyToThrows region) w =
     snd (flyToRegion mapInstance d flyToThrows region w)"
| "step d MoveEnd w = fire_moveend w"
| "step d (ErrorEvent error) w = fire_error error w"
| "step d Unmount w = unmount w"

definition run :: "real \<Rightarrow> fly_event list \<Rightarrow> fly_world \<Rightarrow> fly_world" where
  "run d evs w = fold (step d) evs w"

text \<open>
  The invocations of a promise's \<open>resolve\<close> and \<open>reject\<close>, in order, and the state the
  promise has: that of the first invocation, if there is one.
\<close>

definition settlements_of :: "nat \<Rightarrow> fly_world \<Rightarrow> settlement list" where
  "settlements_of p w = map snd (filter (\<lambda>c. fst c = p) (settleCalls w))"

definition promise_state :: "nat \<Rightarrow> fly_world \<Rightarrow> settlement option" where
  "promise_state p w = (case settlements_of p w of [] \<Rightarrow> None | s # _ \<Rightarrow> Some s)"

text \<open>Invariants of the hook's world, used in the proofs below.\<close>

definition ids_fresh :: "fly_world \<Rightarrow> bool" where
  "ids_fresh w \<longleftrightarrow>
     (\<forall>c \<in> set (settleCalls w). fst c < nextPromise w)
     \<and> (\<forall>q. animationPromiseRef w = Some q \<longrightarrow> q < nextPromise w)"

definition settled_as :: "nat \<Rightarrow> settlement list \<Rightarrow> fly_world \<Rightarrow> bool" where
  "settled_as p xs w \<longleftrightarrow>
     p < nextPromise w \<and> animationPromiseRef w \<noteq> Some p \<and> settlements_of p w = xs"

definition tracked :: "nat \<Rightarrow> fly_world \<Rightarrow> bool" where
  "tracked p w \<longleftrightarrow>
     p < nextPromise w \<and> (animationPromiseRef w = Some p \<longrightarrow> settlements_of p w = [])
     \<and> length (settlements_of p w) \<le> 1"

definition makati :: map_region where
  "makati = \<lparr>regionName = ''Makati CBD'', center = (121.0280, 14.5547), zoom = 16,
              bearing = 135, pitch = 70\<rparr>"

section \<open>Properties of the interpolation kernel\<close>

lemma cube_unit_interval:
  fixes u :: real
  assumes "0 \<le> u" and "u \<le> 1"
  shows "0 \<le> u ^ 3" and "u ^ 3 \<le> 1"
  using assms by (simp_all add: power_le_one)

lemma easeInOutQuad_range:
  assumes "0 \<le> t" and "t \<le> 1"
  shows "0 \<le> easeInOutQuad t" and "easeInOutQuad t \<le> 1"
proof -
  have low: "t < 0.5 \<Longrightarrow> 2 * t * t \<le> 1"
  proof -
    assume "t < 0.5"
    with assms have "t * t \<le> 0.5 * 0.5"
      by (intro mult_mono) simp_all
    then show ?thesis by simp
  qed
  have high: "(4 - 2 * t) * t - 1 = 1 - 2 * (1 - t) ^ 2"
    by (simp add: power2_eq_square algebra_simps)
  have sq: "(1 - t) ^ 2 \<le> 0.5 ^ 2" if "\<not> t < 0.5"
    using that assms by (intro power_mono) simp_all
  show "0 \<le> easeInOutQuad t"
  proof (cases "t < 0.5")
    case True
    then show ?thesis using assms by (simp add: easeInOutQuad_def)
  next
    case False
    from sq [OF False] have "2 * (1 - t) ^ 2 \<le> 1"
      by (simp add: power2_eq_square)
    with False high show ?thesis by (simp add: easeInOutQuad_def)
  qed
  show "easeInOutQuad t \<le> 1"
  proof (cases "t < 0.5")
    case True
    with low show ?thesis by (simp add: easeInOutQuad_def)
  next
    case False
    have "0 \<le> (1 - t) ^ 2" by simp
    with False high show ?thesis by (simp add: easeInOutQuad_def)
  qed
qed

text \<open>
  C6. \<open>lerp\<close> on two numbers, and component-wise on two pairs, is
  \<open>a * (1 - t) + b * t\<close> for every \<open>t\<close>, with no clamping; at \<open>t = 0\<close> it returns
  \<open>a\<close> and at \<open>t = 1\<close> it returns \<open>b\<close>, exactly.
\<close>

theorem lerp_linear_extension:
  "lerp (Num a) (Num b) t = Num (a * (1 - t) + b * t)
   \<and> lerp (Vec a0 a1) (Vec b0 b1) t = Vec (a0 * (1 - t) + b0 * t) (a1 * (1 - t) + b1 * t)
   \<and> lerp (Num a) (Num b) 0 = Num a \<and> lerp (Num a) (Num b) 1 = Num b
   \<and> lerp (Vec a0 a1) (Vec b0 b1) 0 = Vec a0 a1
   \<and> lerp (Vec a0 a1) (Vec b0 b1) 1 = Vec b0 b1"
  by simp

text \<open>
  C7. Each easing function is 0 at 0 and 1 at 1, and maps the unit interval into the
  unit interval.
\<close>

theorem easing_boundary_and_range:
  "easeInOutQuad 0 = 0 \<and> easeInOutQuad 1 = 1
   \<and> easeInCubic 0 = 0 \<and> easeInCubic 1 = 1
   \<and> easeOutCubic 0 = 0 \<and> easeOutCubic 1 = 1
   \<and> (0 \<le> t \<and> t \<le> 1 \<longrightarrow>
        0 \<le> easeInOutQuad t \<and> easeInOutQuad t \<le> 1
      \<and> 0 \<le> easeInCubic t \<and> easeInCubic t \<le> 1
      \<and> 0 \<le> easeOutCubic t \<and> easeOutCubic t \<le> 1)"
proof -
  have ends: "easeInOutQuad 0 = 0" "easeInOutQuad 1 = 1" "easeInCubic 0 = 0"
    "easeInCubic 1 = 1" "easeOutCubic 0 = 0" "easeOutCubic 1 = 1"
    by (simp_all add: easeInOutQuad_def easeInCubic_def easeOutCubic_def)
  have range: "0 \<le> easeInOutQuad t \<and> easeInOutQuad t \<le> 1
      \<and> 0 \<le> easeInCubic t \<and> easeInCubic t \<le> 1
      \<and> 0 \<le> easeOutCubic t \<and> easeOutCubic t \<le> 1" if "0 \<le> t" "t \<le> 1"
  proof -
    have cubic: "easeInCubic t = t ^ 3"
      by (simp add: easeInCubic_def power3_eq_cube)
    from that have u: "0 \<le> 1 - t" "1 - t \<le> 1" by simp_all
    from cube_unit_interval [OF that] cube_unit_interval [OF u]
      easeInOutQuad_range [OF that] cubic
    show ?thesis by (simp add: easeOutCubic_def)
  qed
  from ends range show ?thesis by blast
qed

theorem easing_boundary_and_range_witness:
  "(0::real) \<le> 1/2 \<and> (1/2::real) \<le> 1
   \<and> 0 \<le> easeInOutQuad (1/2) \<and> easeInOutQuad (1/2) \<le> 1
   \<and> 0 \<le> easeInCubic (1/2) \<and> easeInCubic (1/2) \<le> 1
   \<and> 0 \<le> easeOutCubic (1/2) \<and> easeOutCubic (1/2) \<le> 1"
  using easing_boundary_and_range [of "1/2"] by simp

section \<open>Properties of the frame loop\<close>

lemma round64_scaled:
  fixes x :: real and k :: nat
  assumes "2 ^ 52 \<le> x * 2 ^ k" and "x * 2 ^ k < 2 ^ 53"
  shows "round64 x = of_int (round_half_even (x * 2 ^ k)) / 2 ^ k"
proof -
  have pos: "0 < x"
  proof (rule ccontr)
    assume "\<not> 0 < x"
    then have "x * 2 ^ k \<le> 0" by (simp add: mult_le_0_iff)
    moreover have "(0::real) < 2 ^ 52" by simp
    ultimately show False using assms(1) by linarith
  qed
  have l: "log 2 (x * 2 ^ k) = log 2 x + real k"
    using pos by (simp add: log_mult log_nat_power)
  have "52 \<le> log 2 (x * 2 ^ k)"
    using assms(1) pos by (subst le_log_iff) (simp_all add: powr_realpow)
  moreover have "log 2 (x * 2 ^ k) < 53"
    using assms(2) pos by (subst log_less_iff) (simp_all add: powr_realpow)
  ultimately have "52 - real k \<le> log 2 x" "log 2 x < 53 - real k"
    using l by linarith+
  then have "\<lfloor>log 2 x\<rfloor> = 52 - int k" by linarith
  then have "(2::real) powr of_int (\<lfloor>log 2 \<bar>x\<bar>\<rfloor> - 52) = 2 powr (- real k)"
    using pos by simp
  also have "\<dots> = 1 / 2 ^ k"
    by (simp add: powr_minus powr_realpow divide_simps)
  finally have ulp: "(2::real) powr of_int (\<lfloor>log 2 \<bar>x\<bar>\<rfloor> - 52) = 1 / 2 ^ k" .
  from pos have "round64 x = of_int (round_half_even (x / (1 / 2 ^ k))) * (1 / 2 ^ k)"
    unfolding round64_def Let_def ulp by simp
  then show ?thesis by simp
qed

lemma round_half_even_dyadic:
  "round_half_even (of_int M / 2 ^ j) = rnd j M"
proof -
  have fl: "\<lfloor>(of_int M :: real) / 2 ^ j\<rfloor> = M div 2 ^ j"
    using floor_divide_of_int_eq [of M "2 ^ j", where ?'a = real] by simp
  have "(of_int M :: real) = of_int (M div 2 ^ j * 2 ^ j + M mod 2 ^ j)"
    by (simp only: div_mult_mod_eq)
  then have "(of_int M :: real) = of_int (M div 2 ^ j) * 2 ^ j + of_int (M mod 2 ^ j)"
    by simp
  then have frac: "(of_int M :: real) / 2 ^ j - of_int (M div 2 ^ j)
      = of_int (M mod 2 ^ j) / 2 ^ j"
    by (simp add: field_simps)
  have lt: "(of_int (M mod 2 ^ j) :: real) / 2 ^ j < 1 / 2 \<longleftrightarrow> 2 * (M mod 2 ^ j) < 2 ^ j"
  proof -
    have "(of_int (M mod 2 ^ j) :: real) / 2 ^ j < 1 / 2
        \<longleftrightarrow> (of_int (2 * (M mod 2 ^ j)) :: real) < of_int (2 ^ j)"
      by (simp add: field_simps)
    also have "\<dots> \<longleftrightarrow> 2 * (M mod 2 ^ j) < 2 ^ j" by (rule of_int_less_iff)
    finally show ?thesis .
  qed
  have gt: "(of_int (M mod 2 ^ j) :: real) / 2 ^ j > 1 / 2 \<longleftrightarrow> 2 * (M mod 2 ^ j) > 2 ^ j"
  proof -
    have "(of_int (M mod 2 ^ j) :: real) / 2 ^ j > 1 / 2
        \<longleftrightarrow> (of_int (2 ^ j) :: real) < of_int (2 * (M mod 2 ^ j))"
      by (simp add: field_simps)
    also have "\<dots> \<longleftrightarrow> 2 ^ j < 2 * (M mod 2 ^ j)" by (rule of_int_less_iff)
    finally show ?thesis .
  qed
  show ?thesis
    unfolding round_half_even_def rnd_def tie_even_def Let_def fl frac lt gt by simp
qed

lemma round64_units:
  fixes p j :: nat
  assumes "2 ^ (52 + j) \<le> M" and "M < 2 ^ (53 + j)" and "j \<le> p"
  shows "round64 (of_int M / 2 ^ p) = of_int (rnd j M * 2 ^ j) / 2 ^ p"
proof -
  from assms(3) have split: "(2::real) ^ p = 2 ^ (p - j) * 2 ^ j"
    by (simp flip: power_add)
  have scaled: "(of_int M :: real) / 2 ^ p * 2 ^ (p - j) = of_int M / 2 ^ j"
    unfolding split by simp
  have "(of_int (2 ^ (52 + j)) :: real) \<le> of_int M"
    using assms(1) by (simp only: of_int_le_iff)
  then have "(2::real) ^ 52 * 2 ^ j \<le> of_int M" by (simp add: power_add)
  then have lo: "(2::real) ^ 52 \<le> of_int M / 2 ^ j" by (simp add: le_divide_eq)
  have "(of_int M :: real) < of_int (2 ^ (53 + j))"
    using assms(2) by (simp only: of_int_less_iff)
  then have "(of_int M :: real) < 2 ^ 53 * 2 ^ j" by (simp add: power_add)
  then have hi: "(of_int M :: real) / 2 ^ j < 2 ^ 53" by (simp add: divide_less_eq)
  have "round64 (of_int M / 2 ^ p)
      = of_int (round_half_even (of_int M / 2 ^ p * 2 ^ (p - j))) / 2 ^ (p - j)"
    by (rule round64_scaled) (simp_all only: scaled lo hi)
  also have "\<dots> = of_int (rnd j M) / 2 ^ (p - j)"
    by (simp only: scaled round_half_even_dyadic)
  also have "\<dots> = of_int (rnd j M * 2 ^ j) / 2 ^ p"
    unfolding split by simp
  finally show ?thesis .
qed

lemma frame_step64: "fdiv64 1 60 = of58 4803839602528529"
proof -
  have fl: "\<lfloor>(288230376151711744 :: real) / 60\<rfloor> = 4803839602528529" by simp
  have "round_half_even (1 / 60 * 2 ^ 58) = 4803839602528529"
    by (simp add: round_half_even_def Let_def fl)
  with round64_scaled [of "1 / 60" 58] show ?thesis
    by (simp add: fdiv64_def of58_def)
qed

lemma binade58_bounds:
  assumes "2 ^ 52 \<le> M" and "M < 2 ^ 61"
  shows "2 ^ (52 + binade58 M) \<le> M" and "M < 2 ^ (53 + binade58 M)"
    and "binade58 M \<le> 58"
  using assms by (simp_all add: binade58_def)

lemma fadd64_next58:
  assumes "0 \<le> N" and "N \<le> 1729382256910270464"
  shows "fadd64 (of58 N) (fdiv64 1 60) = of58 (next58 N)"
proof -
  let ?M = "N + 4803839602528529"
  from assms have lo: "2 ^ 52 \<le> ?M" and hi: "?M < 2 ^ 61" by simp_all
  have "of58 N + of58 4803839602528529 = of_int ?M / 2 ^ 58"
    unfolding of58_def by (simp only: of_int_add add_divide_distrib)
  then have "fadd64 (of58 N) (fdiv64 1 60) = round64 (of_int ?M / 2 ^ 58)"
    by (simp only: fadd64_def frame_step64)
  also have "\<dots> = of_int (rnd (binade58 ?M) ?M * 2 ^ binade58 ?M) / 2 ^ 58"
    by (rule round64_units) (rule binade58_bounds [OF lo hi])+
  finally show ?thesis
    by (simp only: next58_def round58_def shift58_def of58_def)
qed

lemma of58_less_iff: "of58 a < of58 b \<longleftrightarrow> a < b"
  unfolding of58_def by (simp add: divide_less_cancel)

lemma of58_zero: "of58 0 = 0"
  by (simp add: of58_def)

lemma tie_even_nonneg: "0 \<le> q \<Longrightarrow> 0 \<le> tie_even q r p"
  by (simp add: tie_even_def)

lemma next58_nonneg: "0 \<le> N \<Longrightarrow> 0 \<le> next58 N"
  unfolding next58_def round58_def shift58_def rnd_def
  by (intro mult_nonneg_nonneg tie_even_nonneg pos_imp_zdiv_nonneg_iff [THEN iffD2]) simp_all

lemma index_cases8:
  fixes i :: nat
  assumes "i < 8"
  obtains "i = 0" | "i = 1" | "i = 2" | "i = 3" | "i = 4" | "i = 5" | "i = 6" | "i = 7"
  using assms by linarith

lemma built_in_duration:
  assumes "i < 8"
  shows "duration (animations ! i) = of58 (durs58 ! i)" and "durs58 ! i \<le> 1729382256910270464"
  using assms by (rule index_cases8; simp add: animations_def durs58_def of58_def)+

lemma built_in_length: "length animations = 8" and built_in_nonempty: "animations \<noteq> []"
  by (simp_all add: animations_def)

lemma run_frames_True:
  assumes "anims \<noteq> []"
  shows "run_frames anims (True # ms) st =
     run_frames anims ms
       (if duration (anims ! current_index anims st)
            < fadd64 (animationTime st) (fdiv64 1 60)
        then \<lparr>animationIndex = current_index anims st + 1, animationTime = 0\<rparr>
        else \<lparr>animationIndex = current_index anims st,
              animationTime = fadd64 (animationTime st) (fdiv64 1 60)\<rparr>)"
  using assms by (simp add: animate_def current_index_def Let_def)

lemma run_frames_append_True:
  assumes "anims \<noteq> []"
  shows "run_frames anims (replicate n True @ ms) st
       = run_frames anims ms (run_frames anims (replicate n True) st)"
proof (induction n arbitrary: st)
  case 0
  show ?case by simp
next
  case (Suc n)
  show ?case
    by (simp only: replicate_Suc append_Cons run_frames_True [OF assms] Suc.IH)
qed

lemma frame58_bounds:
  assumes "0 \<le> snd s"
  shows "0 \<le> snd (frame58 s)" and "snd (frame58 s) \<le> 1729382256910270464"
proof -
  have idx: "fst s mod 8 < 8" by simp
  from next58_nonneg [OF assms] show "0 \<le> snd (frame58 s)"
    by (simp add: frame58_def pick58_def)
  from built_in_duration(2) [OF idx] show "snd (frame58 s) \<le> 1729382256910270464"
    by (simp add: frame58_def pick58_def)
qed

lemma frame58_simulates:
  assumes "0 \<le> snd s" and "snd s \<le> 1729382256910270464"
  shows "run_frames animations (True # ms) (abs58 s) = run_frames animations ms (abs58 (frame58 s))"
proof -
  have idx: "fst s mod 8 < 8" by simp
  have cur: "current_index animations (abs58 s) = fst s mod 8"
    by (simp add: current_index_def abs58_def built_in_length)
  have time: "animationTime (abs58 s) = of58 (snd s)"
    by (simp add: abs58_def)
  have "(if duration (animations ! current_index animations (abs58 s))
            < fadd64 (animationTime (abs58 s)) (fdiv64 1 60)
        then \<lparr>animationIndex = current_index animations (abs58 s) + 1, animationTime = 0\<rparr>
        else \<lparr>animationIndex = current_index animations (abs58 s),
              animationTime = fadd64 (animationTime (abs58 s)) (fdiv64 1 60)\<rparr>)
      = abs58 (frame58 s)"
    unfolding cur time built_in_duration(1) [OF idx] fadd64_next58 [OF assms] of58_less_iff
    by (simp add: frame58_def pick58_def abs58_def of58_zero)
  with run_frames_True [OF built_in_nonempty, of ms "abs58 s"] show ?thesis by simp
qed

lemma run_frames58:
  assumes "0 \<le> snd s" and "snd s \<le> 1729382256910270464"
  shows "run_frames animations (replicate n True @ ms) (abs58 s)
       = run_frames animations ms (abs58 (frames58 n s))"
  using assms
proof (induction n arbitrary: s)
  case 0
  show ?case by simp
next
  case (Suc n)
  have "run_frames animations (replicate (Suc n) True @ ms) (abs58 s)
      = run_frames animations (replicate n True @ ms) (abs58 (frame58 s))"
    using frame58_simulates [OF Suc.prems] by simp
  also have "\<dots> = run_frames animations ms (abs58 (frames58 n (frame58 s)))"
    by (rule Suc.IH) (rule frame58_bounds [OF Suc.prems(1)])+
  finally show ?case by simp
qed

lemma frames58_Suc_end: "frames58 (Suc n) s = frame58 (frames58 n s)"
  by (induction n arbitrary: s) simp_all

lemma frames58_numeral:
  "frames58 (numeral k) s = frames58 (pred_numeral k) (frame58 s)"
  by (simp add: numeral_eq_Suc)

lemmas eval58 = frames58_numeral frame58_def pick58_def next58_def round58_def shift58_def
  binade58_def rnd_def tie_even_def durs58_def

lemma segment58_0: "frames58 240 (0, 0) = (0, 1152921504606844288)"
  by (simp add: eval58)

lemma segment58_0_end: "frame58 (0, 1152921504606844288) = (1, 0)"
  by (simp add: eval58)

lemma segment58_1: "frames58 360 (1, 0) = (1, 1729382256910265856)"
  by (simp add: eval58)

lemma segment58_1_end: "frame58 (1, 1729382256910265856) = (2, 0)"
  by (simp add: eval58)

lemma segment58_2: "frames58 300 (2, 0) = (2, 1441151880758555136)"
  by (simp add: eval58)

lemma segment58_2_end: "frame58 (2, 1441151880758555136) = (3, 0)"
  by (simp add: eval58)

lemma segment58_3: "frames58 300 (3, 0) = (3, 1441151880758555136)"
  by (simp add: eval58)

lemma segment58_3_end: "frame58 (3, 1441151880758555136) = (4, 0)"
  by (simp add: eval58)

lemma segment58_4: "frames58 360 (4, 0) = (4, 1729382256910265856)"
  by (simp add: eval58)

lemma segment58_4_end: "frame58 (4, 1729382256910265856) = (5, 0)"
  by (simp add: eval58)

lemma segment58_5: "frames58 240 (5, 0) = (5, 1152921504606844288)"
  by (simp add: eval58)

lemma segment58_5_end: "frame58 (5, 1152921504606844288) = (6, 0)"
  by (simp add: eval58)

lemma segment58_6: "frames58 300 (6, 0) = (6, 1441151880758555136)"
  by (simp add: eval58)

lemma segment58_6_end: "frame58 (6, 1441151880758555136) = (7, 0)"
  by (simp add: eval58)

lemma segment58_7: "frames58 300 (7, 0) = (7, 1441151880758555136)"
  by (simp add: eval58)

lemma segment58_7_end: "frame58 (7, 1441151880758555136) = (8, 0)"
  by (simp add: eval58)

lemma built_in_segment_0:
  "run_frames animations (replicate 240 True) \<lparr>animationIndex = 0, animationTime = 0\<rparr>
     = \<lparr>animationIndex = 0, animationTime = 1152921504606844288 / 2 ^ 58\<rparr>"
  "run_frames animations (replicate 241 True @ ms) \<lparr>animationIndex = 0, animationTime = 0\<rparr>
     = run_frames animations ms \<lparr>animationIndex = 1, animationTime = 0\<rparr>"
proof -
  have start: "abs58 (0, 0) = \<lparr>animationIndex = 0, animationTime = 0\<rparr>"
    and after: "abs58 (1, 0) = \<lparr>animationIndex = 1, animationTime = 0\<rparr>"
    by (simp_all add: abs58_def of58_zero)
  have last: "abs58 (0, 1152921504606844288)
      = \<lparr>animationIndex = 0, animationTime = 1152921504606844288 / 2 ^ 58\<rparr>"
    by (simp add: abs58_def of58_def)
  have bounds: "0 \<le> snd (0::nat, 0::int)" "snd (0::nat, 0::int) \<le> 1729382256910270464"
    by simp_all
  have "frames58 241 (0, 0) = frames58 (Suc 240) (0, 0)" by simp
  also have "\<dots> = (1, 0)"
    by (simp only: frames58_Suc_end segment58_0 segment58_0_end)
  finally have whole: "frames58 241 (0, 0) = (1, 0)" .
  from run_frames58 [OF bounds, where n = 240 and ms = "[]"]
  show "run_frames animations (replicate 240 True) \<lparr>animationIndex = 0, animationTime = 0\<rparr>
     = \<lparr>animationIndex = 0, animationTime = 1152921504606844288 / 2 ^ 58\<rparr>"
    by (simp only: append_Nil2 run_frames.simps(1) segment58_0 start last)
  from run_frames58 [OF bounds, where n = 241 and ms = ms]
  show "run_frames animations (replicate 241 True @ ms) \<lparr>animationIndex = 0, animationTime = 0\<rparr>
     = run_frames animations ms \<lparr>animationIndex = 1, animationTime = 0\<rparr>"
    by (simp only: whole start after)
qed

lemma built_in_segment_1:
  "run_frames animations (replicate 360 True) \<lparr>animationIndex = 1, animationTime = 0\<rparr>
     = \<lparr>animationIndex = 1, animationTime = 1729382256910265856 / 2 ^ 58\<rparr>"
  "run_frames animations (replicate 361 True @ ms) \<lparr>animationIndex = 1, animationTime = 0\<rparr>
     = run_frames animations ms \<lparr>animationIndex = 2, animationTime = 0\<rparr>"
proof -
  have start: "abs58 (1, 0) = \<lparr>animationIndex = 1, animationTime = 0\<rparr>"
    and after: "abs58 (2, 0) = \<lparr>animationIndex = 2, animationTime = 0\<rparr>"
    by (simp_all add: abs58_def of58_zero)
  have last: "abs58 (1, 1729382256910265856)
      = \<lparr>animationIndex = 1, animationTime = 1729382256910265856 / 2 ^ 58\<rparr>"
    by (simp add: abs58_def of58_def)
  have bounds: "0 \<le> snd (1::nat, 0::int)" "snd (1::nat, 0::int) \<le> 1729382256910270464"
    by simp_all
  have "frames58 361 (1, 0) = frames58 (Suc 360) (1, 0)" by simp
  also have "\<dots> = (2, 0)"
    by (simp only: frames58_Suc_end segment58_1 segment58_1_end)
  finally have whole: "frames58 361 (1, 0) = (2, 0)" .
  from run_frames58 [OF bounds, where n = 360 and ms = "[]"]
  show "run_frames animations (replicate 360 True) \<lparr>animationIndex = 1, animationTime = 0\<rparr>
     = \<lparr>animationIndex = 1, animationTime = 1729382256910265856 / 2 ^ 58\<rparr>"
    by (simp only: append_Nil2 run_frames.simps(1) segment58_1 start last)
  from run_frames58 [OF bounds, where n = 361 and ms = ms]
  show "run_frames animations (replicate 361 True @ ms) \<lparr>animationIndex = 1, animationTime = 0\<rparr>
     = run_frames animations ms \<lparr>animationIndex = 2, animationTime = 0\<rparr>"
    by (simp only: whole start after)
qed

lemma built_in_segment_2:
  "run_frames animations (replicate 300 True) \<lparr>animationIndex = 2, animationTime = 0\<rparr>
     = \<lparr>animationIndex = 2, animationTime = 1441151880758555136 / 2 ^ 58\<rparr>"
  "run_frames animations (replicate 301 True @ ms) \<lparr>animationIndex = 2, animationTime = 0\<rparr>
     = run_frames animations ms \<lparr>animationIndex = 3, animationTime = 0\<rparr>"
proof -
  have start: "abs58 (2, 0) = \<lparr>animationIndex = 2, animationTime = 0\<rparr>"
    and after: "abs58 (3, 0) = \<lparr>animationIndex = 3, animationTime = 0\<rparr>"
    by (simp_all add: abs58_def of58_zero)
  have last: "abs58 (2, 1441151880758555136)
      = \<lparr>animationIndex = 2, animationTime = 1441151880758555136 / 2 ^ 58\<rparr>"
    by (simp add: abs58_def of58_def)
  have bounds: "0 \<le> snd (2::nat, 0::int)" "snd (2::nat, 0::int) \<le> 1729382256910270464"
    by simp_all
  have "frames58 301 (2, 0) = frames58 (Suc 300) (2, 0)" by simp
  also have "\<dots> = (3, 0)"
    by (simp only: frames58_Suc_end segment58_2 segment58_2_end)
  finally have whole: "frames58 301 (2, 0) = (3, 0)" .
  from run_frames58 [OF bounds, where n = 300 and ms = "[]"]
  show "run_frames animations (replicate 300 True) \<lparr>animationIndex = 2, animationTime = 0\<rparr>
     = \<lparr>animationIndex = 2, animationTime = 1441151880758555136 / 2 ^ 58\<rparr>"
    by (simp only: append_Nil2 run_frames.simps(1) segment58_2 start last)
  from run_frames58 [OF bounds, where n = 301 and ms = ms]
  show "run_frames animations (replicate 301 True @ ms) \<lparr>animationIndex = 2, animationTime = 0\<rparr>
     = run_frames animations ms \<lparr>animationIndex = 3, animationTime = 0\<rparr>"
    by (simp only: whole start after)
qed

lemma built_in_segment_3:
  "run_frames animations (replicate 300 True) \<lparr>animationIndex = 3, animationTime = 0\<rparr>
     = \<lparr>animationIndex = 3, animationTime = 1441151880758555136 / 2 ^ 58\<rparr>"
  "run_frames animations (replicate 301 True @ ms) \<lparr>animationIndex = 3, animationTime = 0\<rparr>
     = run_frames animations ms \<lparr>animationIndex = 4, animationTime = 0\<rparr>"
proof -
  have start: "abs58 (3, 0) = \<lparr>animationIndex = 3, animationTime = 0\<rparr>"
    and after: "abs58 (4, 0) = \<lparr>animationIndex = 4, animationTime = 0\<rparr>"
    by (simp_all add: abs58_def of58_zero)
  have last: "abs58 (3, 1441151880758555136)
      = \<lparr>animationIndex = 3, animationTime = 1441151880758555136 / 2 ^ 58\<rparr>"
    by (simp add: abs58_def of58_def)
  have bounds: "0 \<le> snd (3::nat, 0::int)" "snd (3::nat, 0::int) \<le> 1729382256910270464"
    by simp_all
  have "frames58 301 (3, 0) = frames58 (Suc 300) (3, 0)" by simp
  also have "\<dots> = (4, 0)"
    by (simp only: frames58_Suc_end segment58_3 segment58_3_end)
  finally have whole: "frames58 301 (3, 0) = (4, 0)" .
  from run_frames58 [OF bounds, where n = 300 and ms = "[]"]
  show "run_frames animations (replicate 300 True) \<lparr>animationIndex = 3, animationTime = 0\<rparr>
     = \<lparr>animationIndex = 3, animationTime = 1441151880758555136 / 2 ^ 58\<rparr>"
    by (simp only: append_Nil2 run_frames.simps(1) segment58_3 start last)
  from run_frames58 [OF bounds, where n = 301 and ms = ms]
  show "run_frames animations (replicate 301 True @ ms) \<lparr>animationIndex = 3, animationTime = 0\<rparr>
     = run_frames animations ms \<lparr>animationIndex = 4, animationTime = 0\<rparr>"
    by (simp only: whole start after)
qed

lemma built_in_segment_4:
  "run_frames animations (replicate 360 True) \<lparr>animationIndex = 4, animationTime = 0\<rparr>
     = \<lparr>animationIndex = 4, animationTime = 1729382256910265856 / 2 ^ 58\<rparr>"
  "run_frames animations (replicate 361 True @ ms) \<lparr>animationIndex = 4, animationTime = 0\<rparr>
     = run_frames animations ms \<lparr>animationIndex = 5, animationTime = 0\<rparr>"
proof -
  have start: "abs58 (4, 0) = \<lparr>animationIndex = 4, animationTime = 0\<rparr>"
    and after: "abs58 (5, 0) = \<lparr>animationIndex = 5, animationTime = 0\<rparr>"
    by (simp_all add: abs58_def of58_zero)
  have last: "abs58 (4, 1729382256910265856)
      = \<lparr>animationIndex = 4, animationTime = 1729382256910265856 / 2 ^ 58\<rparr>"
    by (simp add: abs58_def of58_def)
  have bounds: "0 \<le> snd (4::nat, 0::int)" "snd (4::nat, 0::int) \<le> 1729382256910270464"
    by simp_all
  have "frames58 361 (4, 0) = frames58 (Suc 360) (4, 0)" by simp
  also have "\<dots> = (5, 0)"
    by (simp only: frames58_Suc_end segment58_4 segment58_4_end)
  finally have whole: "frames58 361 (4, 0) = (5, 0)" .
  from run_frames58 [OF bounds, where n = 360 and ms = "[]"]
  show "run_frames animations (replicate 360 True) \<lparr>animationIndex = 4, animationTime = 0\<rparr>
     = \<lparr>animationIndex = 4, animationTime = 1729382256910265856 / 2 ^ 58\<rparr>"
    by (simp only: append_Nil2 run_frames.simps(1) segment58_4 start last)
  from run_frames58 [OF bounds, where n = 361 and ms = ms]
  show "run_frames animations (replicate 361 True @ ms) \<lparr>animationIndex = 4, animationTime = 0\<rparr>
     = run_frames animations ms \<lparr>animationIndex = 5, animationTime = 0\<rparr>"
    by (simp only: whole start after)
qed

lemma built_in_segment_5:
  "run_frames animations (replicate 240 True) \<lparr>animationIndex = 5, animationTime = 0\<rparr>
     = \<lparr>animationIndex = 5, animationTime = 1152921504606844288 / 2 ^ 58\<rparr>"
  "run_frames animations (replicate 241 True @ ms) \<lparr>animationIndex = 5, animationTime = 0\<rparr>
     = run_frames animations ms \<lparr>animationIndex = 6, animationTime = 0\<rparr>"
proof -
  have start: "abs58 (5, 0) = \<lparr>animationIndex = 5, animationTime = 0\<rparr>"
    and after: "abs58 (6, 0) = \<lparr>animationIndex = 6, animationTime = 0\<rparr>"
    by (simp_all add: abs58_def of58_zero)
  have last: "abs58 (5, 1152921504606844288)
      = \<lparr>animationIndex = 5, animationTime = 1152921504606844288 / 2 ^ 58\<rparr>"
    by (simp add: abs58_def of58_def)
  have bounds: "0 \<le> snd (5::nat, 0::int)" "snd (5::nat, 0::int) \<le> 1729382256910270464"
    by simp_all
  have "frames58 241 (5, 0) = frames58 (Suc 240) (5, 0)" by simp
  also have "\<dots> = (6, 0)"
    by (simp only: frames58_Suc_end segment58_5 segment58_5_end)
  finally have whole: "frames58 241 (5, 0) = (6, 0)" .
  from run_frames58 [OF bounds, where n = 240 and ms = "[]"]
  show "run_frames animations (replicate 240 True) \<lparr>animationIndex = 5, animationTime = 0\<rparr>
     = \<lparr>animationIndex = 5, animationTime = 1152921504606844288 / 2 ^ 58\<rparr>"
    by (simp only: append_Nil2 run_frames.simps(1) segment58_5 start last)
  from run_frames58 [OF bounds, where n = 241 and ms = ms]
  show "run_frames animations (replicate 241 True @ ms) \<lparr>animationIndex = 5, animationTime = 0\<rparr>
     = run_frames animations ms \<lparr>animationIndex = 6, animationTime = 0\<rparr>"
    by (simp only: whole start after)
qed

lemma built_in_segment_6:
  "run_frames animations (replicate 300 True) \<lparr>animationIndex = 6, animationTime = 0\<rparr>
     = \<lparr>animationIndex = 6, animationTime = 1441151880758555136 / 2 ^ 58\<rparr>"
  "run_frames animations (replicate 301 True @ ms) \<lparr>animationIndex = 6, animationTime = 0\<rparr>
     = run_frames animations ms \<lparr>animationIndex = 7, animationTime = 0\<rparr>"
proof -
  have start: "abs58 (6, 0) = \<lparr>animationIndex = 6, animationTime = 0\<rparr>"
    and after: "abs58 (7, 0) = \<lparr>animationIndex = 7, animationTime = 0\<rparr>"
    by (simp_all add: abs58_def of58_zero)
  have last: "abs58 (6, 1441151880758555136)
      = \<lparr>animationIndex = 6, animationTime = 1441151880758555136 / 2 ^ 58\<rparr>"
    by (simp add: abs58_def of58_def)
  have bounds: "0 \<le> snd (6::nat, 0::int)" "snd (6::nat, 0::int) \<le> 1729382256910270464"
    by simp_all
  have "frames58 301 (6, 0) = frames58 (Suc 300) (6, 0)" by simp
  also have "\<dots> = (7, 0)"
    by (simp only: frames58_Suc_end segment58_6 segment58_6_end)
  finally have whole: "frames58 301 (6, 0) = (7, 0)" .
  from run_frames58 [OF bounds, where n = 300 and ms = "[]"]
  show "run_frames animations (replicate 300 True) \<lparr>animationIndex = 6, animationTime = 0\<rparr>
     = \<lparr>animationIndex = 6, animationTime = 1441151880758555136 / 2 ^ 58\<rparr>"
    by (simp only: append_Nil2 run_frames.simps(1) segment58_6 start last)
  from run_frames58 [OF bounds, where n = 301 and ms = ms]
  show "run_frames animations (replicate 301 True @ ms) \<lparr>animationIndex = 6, animationTime = 0\<rparr>
     = run_frames animations ms \<lparr>animationIndex = 7, animationTime = 0\<rparr>"
    by (simp only: whole start after)
qed

lemma built_in_segment_7:
  "run_frames animations (replicate 300 True) \<lparr>animationIndex = 7, animationTime = 0\<rparr>
     = \<lparr>animationIndex = 7, animationTime = 1441151880758555136 / 2 ^ 58\<rparr>"
  "run_frames animations (replicate 301 True @ ms) \<lparr>animationIndex = 7, animationTime = 0\<rparr>
     = run_frames animations ms \<lparr>animationIndex = 8, animationTime = 0\<rparr>"
proof -
  have start: "abs58 (7, 0) = \<lparr>animationIndex = 7, animationTime = 0\<rparr>"
    and after: "abs58 (8, 0) = \<lparr>animationIndex = 8, animationTime = 0\<rparr>"
    by (simp_all add: abs58_def of58_zero)
  have last: "abs58 (7, 1441151880758555136)
      = \<lparr>animationIndex = 7, animationTime = 1441151880758555136 / 2 ^ 58\<rparr>"
    by (simp add: abs58_def of58_def)
  have bounds: "0 \<le> snd (7::nat, 0::int)" "snd (7::nat, 0::int) \<le> 1729382256910270464"
    by simp_all
  have "frames58 301 (7, 0) = frames58 (Suc 300) (7, 0)" by simp
  also have "\<dots> = (8, 0)"
    by (simp only: frames58_Suc_end segment58_7 segment58_7_end)
  finally have whole: "frames58 301 (7, 0) = (8, 0)" .
  from run_frames58 [OF bounds, where n = 300 and ms = "[]"]
  show "run_frames animations (replicate 300 True) \<lparr>animationIndex = 7, animationTime = 0\<rparr>
     = \<lparr>animationIndex = 7, animationTime = 1441151880758555136 / 2 ^ 58\<rparr>"
    by (simp only: append_Nil2 run_frames.simps(1) segment58_7 start last)
  from run_frames58 [OF bounds, where n = 301 and ms = ms]
  show "run_frames animations (replicate 301 True @ ms) \<lparr>animationIndex = 7, animationTime = 0\<rparr>
     = run_frames animations ms \<lparr>animationIndex = 8, animationTime = 0\<rparr>"
    by (simp only: whole start after)
qed

lemma built_in_cycle:
  "run_frames animations (replicate 2408 True) \<lparr>animationIndex = 0, animationTime = 0\<rparr>
     = \<lparr>animationIndex = 8, animationTime = 0\<rparr>"
proof -
  have "(2408::nat) = 241 + (361 + (301 + (301 + (361 + (241 + (301 + (301 + 0)))))))"
    by simp
  then have "replicate 2408 True
      = replicate 241 True @ replicate 361 True @ replicate 301 True @ replicate 301 True
        @ replicate 361 True @ replicate 241 True @ replicate 301 True @ replicate 301 True @ []"
    by (simp only: replicate_add replicate_0)
  then show ?thesis
    by (simp only: built_in_segment_0(2) built_in_segment_1(2) built_in_segment_2(2)
        built_in_segment_3(2) built_in_segment_4(2) built_in_segment_5(2)
        built_in_segment_6(2) built_in_segment_7(2) run_frames.simps(1))
qed

lemma crossing_first_segment:
  "fadd64 0 (fdiv64 1 60) = 4803839602528529 / 2 ^ 58"
  "\<not> duration (animations ! 0) < fadd64 0 (fdiv64 1 60)"
  "duration (animations ! 0) < fadd64 (1152921504606844288 / 2 ^ 58) (fdiv64 1 60)"
proof -
  have d: "duration (animations ! 0) = of58 (durs58 ! 0)"
    by (rule built_in_duration) simp
  have "fadd64 (of58 0) (fdiv64 1 60) = of58 (next58 0)"
    by (rule fadd64_next58) simp_all
  moreover have "next58 0 = 4803839602528529" by (simp add: eval58)
  ultimately have first: "fadd64 0 (fdiv64 1 60) = of58 4803839602528529"
    by (simp only: of58_zero)
  then show "fadd64 0 (fdiv64 1 60) = 4803839602528529 / 2 ^ 58"
    by (simp only: of58_def of_int_numeral)
  have "\<not> durs58 ! 0 < 4803839602528529" by (simp add: durs58_def)
  then show "\<not> duration (animations ! 0) < fadd64 0 (fdiv64 1 60)"
    by (simp only: d first of58_less_iff not_False_eq_True)
  have "fadd64 (of58 1152921504606844288) (fdiv64 1 60) = of58 (next58 1152921504606844288)"
    by (rule fadd64_next58) simp_all
  moreover have "durs58 ! 0 < next58 1152921504606844288" by (simp add: eval58)
  ultimately have "duration (animations ! 0)
      < fadd64 (of58 1152921504606844288) (fdiv64 1 60)"
    by (simp only: d of58_less_iff)
  then show "duration (animations ! 0)
      < fadd64 (1152921504606844288 / 2 ^ 58) (fdiv64 1 60)"
    by (simp only: of58_def of_int_numeral)
qed

lemma crossing_last_segment:
  "duration (animations ! 7) < fadd64 (1441151880758555136 / 2 ^ 58) (fdiv64 1 60)"
proof -
  have d: "duration (animations ! 7) = of58 (durs58 ! 7)"
    by (rule built_in_duration) simp
  have "fadd64 (of58 1441151880758555136) (fdiv64 1 60) = of58 (next58 1441151880758555136)"
    by (rule fadd64_next58) simp_all
  moreover have "durs58 ! 7 < next58 1441151880758555136" by (simp add: eval58)
  ultimately have "duration (animations ! 7)
      < fadd64 (of58 1441151880758555136) (fdiv64 1 60)"
    by (simp only: d of58_less_iff)
  then show ?thesis
    by (simp only: of58_def of_int_numeral)
qed

lemma frame_within_segment:
  assumes "anims \<noteq> []"
  shows "within_segment anims
     (if duration (anims ! current_index anims st)
          < fadd64 (animationTime st) (fdiv64 1 60)
      then \<lparr>animationIndex = current_index anims st + 1, animationTime = 0\<rparr>
      else \<lparr>animationIndex = current_index anims st,
            animationTime = fadd64 (animationTime st) (fdiv64 1 60)\<rparr>)"
  by (simp add: within_segment_def current_index_def not_less)

lemma run_frames_within_segment:
  assumes "anims \<noteq> []"
  shows "within_segment anims st \<Longrightarrow> within_segment anims (run_frames anims ms st)"
proof (induction ms arbitrary: st)
  case Nil
  then show ?case by simp
next
  case (Cons m ms)
  show ?case
  proof (cases m)
    case True
    have "within_segment anims (run_frames anims (True # ms) st)"
      unfolding run_frames_True [OF assms]
      by (rule Cons.IH) (rule frame_within_segment [OF assms])
    with True show ?thesis by simp
  next
    case False
    with Cons.prems show ?thesis by (simp add: animate_def)
  qed
qed

lemma animate_index_le:
  assumes "animate anims m st = Scheduled call st'"
  shows "animationIndex st' \<le> length anims"
proof -
  from assms have ne: "anims \<noteq> []" and "m"
    by (auto simp: animate_def split: if_splits)
  with assms show ?thesis
    by (auto simp: animate_def Let_def Suc_le_eq split: if_splits)
qed

lemma run_frames_index_le:
  "animationIndex st \<le> length anims \<Longrightarrow>
   animationIndex (run_frames anims ms st) \<le> length anims"
proof (induction ms arbitrary: st)
  case Nil
  then show ?case by simp
next
  case (Cons m ms)
  show ?case
  proof (cases "animate anims m st")
    case (Scheduled call st')
    from animate_index_le [OF Scheduled] Cons.IH Scheduled show ?thesis by simp
  qed (use Cons.prems in simp_all)
qed

lemma run_frames_index_after_frame:
  assumes "anims \<noteq> []"
  shows "animationIndex (run_frames anims (True # ms) st) \<le> length anims"
  unfolding run_frames_True [OF assms]
  using assms by (intro run_frames_index_le) (simp add: current_index_def Suc_le_eq)

lemma run_frames_wrapped_index:
  assumes "anims \<noteq> []"
  shows "run_frames anims (True # ms) \<lparr>animationIndex = length anims, animationTime = t\<rparr>
       = run_frames anims (True # ms) \<lparr>animationIndex = 0, animationTime = t\<rparr>"
  unfolding run_frames_True [OF assms] by (simp add: current_index_def)

text \<open>
  C1, as the frame loop has it. The loop has no delta: every frame adds the fixed step
  \<open>1.0 / 60.0\<close> to the segment time. When the sum strictly exceeds the duration of the
  current segment, the frame increments the index and sets the time to 0, so the
  overflow beyond the duration is discarded and not carried into the next segment;
  otherwise the sum is kept. After any frame the state therefore holds no overflow. On
  the built-in tour the loop is still in segment 0 after 240 frames, just below 4
  seconds, and in segment 1 at time 0 after 241 frames; one full pass over the table
  takes 2408 frames, eight more than the 2400 that make up the 40 seconds of its
  durations.

  The counterexample compares the loop with the specification's carrying tick on the
  built-in tour: 241 frames amount to 4 seconds and one sixtieth; the loop is then in
  segment 1 at time 0, a tick that carries is at one sixtieth of a second.
\<close>

theorem tour_overflow_discarded:
  assumes "anims \<noteq> []"
  shows "(duration (anims ! current_index anims st)
            < fadd64 (animationTime st) (fdiv64 1 60) \<longrightarrow>
          run_frames anims [True] st
            = \<lparr>animationIndex = current_index anims st + 1, animationTime = 0\<rparr>)
       \<and> (\<not> duration (anims ! current_index anims st)
              < fadd64 (animationTime st) (fdiv64 1 60) \<longrightarrow>
          run_frames anims [True] st
            = \<lparr>animationIndex = current_index anims st,
               animationTime = fadd64 (animationTime st) (fdiv64 1 60)\<rparr>)
       \<and> within_segment anims (run_frames anims (True # ms) st)
       \<and> run_frames animations (replicate 240 True) \<lparr>animationIndex = 0, animationTime = 0\<rparr>
          = \<lparr>animationIndex = 0, animationTime = 1152921504606844288 / 2 ^ 58\<rparr>
       \<and> run_frames animations (replicate 241 True) \<lparr>animationIndex = 0, animationTime = 0\<rparr>
          = \<lparr>animationIndex = 1, animationTime = 0\<rparr>
       \<and> run_frames animations (replicate 2408 True) \<lparr>animationIndex = 0, animationTime = 0\<rparr>
          = \<lparr>animationIndex = 8, animationTime = 0\<rparr>"
proof -
  note frame = run_frames_True [OF assms, of "[]" st]
  have over: "run_frames anims [True] st
            = \<lparr>animationIndex = current_index anims st + 1, animationTime = 0\<rparr>"
    if "duration (anims ! current_index anims st) < fadd64 (animationTime st) (fdiv64 1 60)"
    using frame that by simp
  have under: "run_frames anims [True] st
            = \<lparr>animationIndex = current_index anims st,
               animationTime = fadd64 (animationTime st) (fdiv64 1 60)\<rparr>"
    if "\<not> duration (anims ! current_index anims st)
          < fadd64 (animationTime st) (fdiv64 1 60)"
    using frame that by simp
  have kept: "within_segment anims (run_frames anims (True # ms) st)"
    unfolding run_frames_True [OF assms]
    by (rule run_frames_within_segment [OF assms]) (rule frame_within_segment [OF assms])
  have first: "run_frames animations (replicate 241 True)
        \<lparr>animationIndex = 0, animationTime = 0\<rparr>
      = \<lparr>animationIndex = 1, animationTime = 0\<rparr>"
    using built_in_segment_0(2) [of "[]"] by simp
  from over under kept built_in_segment_0(1) first built_in_cycle
  show ?thesis by blast
qed

theorem tour_overflow_discarded_witness:
  "animations \<noteq> []
   \<and> duration (animations !
        current_index animations
          \<lparr>animationIndex = 0, animationTime = 1152921504606844288 / 2 ^ 58\<rparr>)
       < fadd64 (1152921504606844288 / 2 ^ 58) (fdiv64 1 60)
   \<and> run_frames animations [True]
        \<lparr>animationIndex = 0, animationTime = 1152921504606844288 / 2 ^ 58\<rparr>
       = \<lparr>animationIndex = 1, animationTime = 0\<rparr>
   \<and> run_frames animations [True] \<lparr>animationIndex = 0, animationTime = 0\<rparr>
       = \<lparr>animationIndex = 0, animationTime = 4803839602528529 / 2 ^ 58\<rparr>
   \<and> within_segment animations
        (run_frames animations [True] \<lparr>animationIndex = 0, animationTime = 0\<rparr>)"
proof -
  define late :: real where "late = 1152921504606844288 / 2 ^ 58"
  have cur: "current_index animations \<lparr>animationIndex = 0, animationTime = late\<rparr> = 0"
    "current_index animations \<lparr>animationIndex = 0, animationTime = 0\<rparr> = 0"
    by (simp_all add: current_index_def)
  note crossing = crossing_first_segment [folded late_def]
  from tour_overflow_discarded
      [OF built_in_nonempty, of "\<lparr>animationIndex = 0, animationTime = late\<rparr>" "[]"]
    tour_overflow_discarded
      [OF built_in_nonempty, of "\<lparr>animationIndex = 0, animationTime = 0\<rparr>" "[]"]
    built_in_nonempty crossing
  show ?thesis unfolding late_def [symmetric]
    by (auto simp: cur simp del: run_frames.simps)
qed

theorem tour_overflow_dropped_counterexample:
  "run_frames animations (replicate 241 True) \<lparr>animationIndex = 0, animationTime = 0\<rparr>
     = \<lparr>animationIndex = 1, animationTime = 0\<rparr>
   \<and> carry_tick animations (241 / 60) \<lparr>animationIndex = 0, animationTime = 0\<rparr>
     = \<lparr>animationIndex = 1, animationTime = 1 / 60\<rparr>"
proof -
  have "run_frames animations (replicate 241 True) \<lparr>animationIndex = 0, animationTime = 0\<rparr>
      = \<lparr>animationIndex = 1, animationTime = 0\<rparr>"
    using built_in_segment_0(2) [of "[]"] by simp
  moreover have "carry_tick animations (241 / 60) \<lparr>animationIndex = 0, animationTime = 0\<rparr>
      = \<lparr>animationIndex = 1, animationTime = 1 / 60\<rparr>"
    by (simp add: carry_tick_def animations_def)
  ultimately show ?thesis by simp
qed

text \<open>
  C8, as the frame loop has it. The index the loop stores lies between 0 and the table
  length \<open>N\<close> inclusive: the frame that completes a segment stores the successor of the
  segment it worked on, so completing the last segment stores \<open>N\<close>. Every frame first
  normalises the stored index modulo \<open>N\<close>; the segment a frame works on and poses
  therefore lies below \<open>N\<close>, a frame that completes segment \<open>i\<close> is followed by a frame
  on segment \<open>i + 1\<close> modulo \<open>N\<close>, and after the last segment the loop continues exactly
  as from segment 0. The built-in tour passes through its eight segments in order, in
  241, 361, 301, 301, 361, 241, 301 and 301 frames.

  The counterexample: after the 2408 frames of one pass over the built-in tour the
  stored index is 8, the length of the table.
\<close>

theorem active_segment_cyclic:
  assumes "anims \<noteq> []"
  shows "(\<forall>i phase st'. animate anims True st = Scheduled (Some (i, phase)) st'
             \<longrightarrow> i = current_index anims st \<and> i < length anims)
       \<and> (duration (anims ! current_index anims st)
            < fadd64 (animationTime st) (fdiv64 1 60) \<longrightarrow>
          animationIndex (run_frames anims [True] st) = current_index anims st + 1
          \<and> current_index anims (run_frames anims [True] st)
              = (current_index anims st + 1) mod length anims)
       \<and> (\<not> duration (anims ! current_index anims st)
              < fadd64 (animationTime st) (fdiv64 1 60) \<longrightarrow>
          animationIndex (run_frames anims [True] st) = current_index anims st)
       \<and> animationIndex (run_frames anims (True # ms) st) \<le> length anims
       \<and> run_frames anims (True # ms) \<lparr>animationIndex = length anims, animationTime = t\<rparr>
          = run_frames anims (True # ms) \<lparr>animationIndex = 0, animationTime = t\<rparr>
       \<and> run_frames animations (replicate 241 True) \<lparr>animationIndex = 0, animationTime = 0\<rparr>
          = \<lparr>animationIndex = 1, animationTime = 0\<rparr>
       \<and> run_frames animations (replicate 361 True) \<lparr>animationIndex = 1, animationTime = 0\<rparr>
          = \<lparr>animationIndex = 2, animationTime = 0\<rparr>
       \<and> run_frames animations (replicate 301 True) \<lparr>animationIndex = 2, animationTime = 0\<rparr>
          = \<lparr>animationIndex = 3, animationTime = 0\<rparr>
       \<and> run_frames animations (replicate 301 True) \<lparr>animationIndex = 3, animationTime = 0\<rparr>
          = \<lparr>animationIndex = 4, animationTime = 0\<rparr>
       \<and> run_frames animations (replicate 361 True) \<lparr>animationIndex = 4, animationTime = 0\<rparr>
          = \<lparr>animationIndex = 5, animationTime = 0\<rparr>
       \<and> run_frames animations (replicate 241 True) \<lparr>animationIndex = 5, animationTime = 0\<rparr>
          = \<lparr>animationIndex = 6, animationTime = 0\<rparr>
       \<and> run_frames animations (replicate 301 True) \<lparr>animationIndex = 6, animationTime = 0\<rparr>
          = \<lparr>animationIndex = 7, animationTime = 0\<rparr>
       \<and> run_frames animations (replicate 301 True) \<lparr>animationIndex = 7, animationTime = 0\<rparr>
          = \<lparr>animationIndex = 8, animationTime = 0\<rparr>"
proof -
  from assms have pos: "0 < length anims" by simp
  note frame = run_frames_True [OF assms, of "[]" st]
  have posed: "i = current_index anims st \<and> i < length anims"
    if "animate anims True st = Scheduled (Some (i, phase)) st'" for i phase st'
    using that assms pos
    by (auto simp: animate_def current_index_def Let_def split: if_splits)
  have over: "animationIndex (run_frames anims [True] st) = current_index anims st + 1
      \<and> current_index anims (run_frames anims [True] st)
          = (current_index anims st + 1) mod length anims"
    if "duration (anims ! current_index anims st) < fadd64 (animationTime st) (fdiv64 1 60)"
    using frame that by (simp add: current_index_def)
  have under: "animationIndex (run_frames anims [True] st) = current_index anims st"
    if "\<not> duration (anims ! current_index anims st)
          < fadd64 (animationTime st) (fdiv64 1 60)"
    using frame that by simp
  note stored = run_frames_index_after_frame [OF assms, of ms st]
  note wrapped = run_frames_wrapped_index [OF assms, of ms t]
  have tour:
    "run_frames animations (replicate 241 True) \<lparr>animationIndex = 0, animationTime = 0\<rparr>
      = \<lparr>animationIndex = 1, animationTime = 0\<rparr>"
    "run_frames animations (replicate 361 True) \<lparr>animationIndex = 1, animationTime = 0\<rparr>
      = \<lparr>animationIndex = 2, animationTime = 0\<rparr>"
    "run_frames animations (replicate 301 True) \<lparr>animationIndex = 2, animationTime = 0\<rparr>
      = \<lparr>animationIndex = 3, animationTime = 0\<rparr>"
    "run_frames animations (replicate 301 True) \<lparr>animationIndex = 3, animationTime = 0\<rparr>
      = \<lparr>animationIndex = 4, animationTime = 0\<rparr>"
    "run_frames animations (replicate 361 True) \<lparr>animationIndex = 4, animationTime = 0\<rparr>
      = \<lparr>animationIndex = 5, animationTime = 0\<rparr>"
    "run_frames animations (replicate 241 True) \<lparr>animationIndex = 5, animationTime = 0\<rparr>
      = \<lparr>animationIndex = 6, animationTime = 0\<rparr>"
    "run_frames animations (replicate 301 True) \<lparr>animationIndex = 6, animationTime = 0\<rparr>
      = \<lparr>animationIndex = 7, animationTime = 0\<rparr>"
    "run_frames animations (replicate 301 True) \<lparr>animationIndex = 7, animationTime = 0\<rparr>
      = \<lparr>animationIndex = 8, animationTime = 0\<rparr>"
    using built_in_segment_0(2) [of "[]"] built_in_segment_1(2) [of "[]"]
      built_in_segment_2(2) [of "[]"] built_in_segment_3(2) [of "[]"]
      built_in_segment_4(2) [of "[]"] built_in_segment_5(2) [of "[]"]
      built_in_segment_6(2) [of "[]"] built_in_segment_7(2) [of "[]"]
    by simp_all
  from posed over under stored wrapped tour show ?thesis by blast
qed

theorem active_segment_cyclic_witness:
  "animations \<noteq> []
   \<and> duration (animations !
        current_index animations
          \<lparr>animationIndex = 0, animationTime = 1152921504606844288 / 2 ^ 58\<rparr>)
       < fadd64 (1152921504606844288 / 2 ^ 58) (fdiv64 1 60)
   \<and> current_index animations
        (run_frames animations [True]
           \<lparr>animationIndex = 0, animationTime = 1152921504606844288 / 2 ^ 58\<rparr>) = 1
   \<and> duration (animations !
        current_index animations
          \<lparr>animationIndex = 7, animationTime = 1441151880758555136 / 2 ^ 58\<rparr>)
       < fadd64 (1441151880758555136 / 2 ^ 58) (fdiv64 1 60)
   \<and> animationIndex
        (run_frames animations [True]
           \<lparr>animationIndex = 7, animationTime = 1441151880758555136 / 2 ^ 58\<rparr>) = 8
   \<and> current_index animations
        (run_frames animations [True]
           \<lparr>animationIndex = 7, animationTime = 1441151880758555136 / 2 ^ 58\<rparr>) = 0
   \<and> animationIndex
        (run_frames animations [True] \<lparr>animationIndex = 0, animationTime = 0\<rparr>) = 0"
proof -
  define first :: real where "first = 1152921504606844288 / 2 ^ 58"
  define final :: real where "final = 1441151880758555136 / 2 ^ 58"
  have cur: "current_index animations \<lparr>animationIndex = 0, animationTime = first\<rparr> = 0"
    "current_index animations \<lparr>animationIndex = 7, animationTime = final\<rparr> = 7"
    "current_index animations \<lparr>animationIndex = 0, animationTime = 0\<rparr> = 0"
    by (simp_all add: current_index_def built_in_length)
  note crossing = crossing_first_segment [folded first_def]
    crossing_last_segment [folded final_def]
  from active_segment_cyclic
      [OF built_in_nonempty, of "\<lparr>animationIndex = 0, animationTime = first\<rparr>" "[]" 0]
    active_segment_cyclic
      [OF built_in_nonempty, of "\<lparr>animationIndex = 7, animationTime = final\<rparr>" "[]" 0]
    active_segment_cyclic
      [OF built_in_nonempty, of "\<lparr>animationIndex = 0, animationTime = 0\<rparr>" "[]" 0]
    built_in_nonempty crossing
  show ?thesis unfolding first_def [symmetric] final_def [symmetric]
    by (auto simp: cur built_in_length simp del: run_frames.simps)
qed

theorem stored_index_reaches_length_counterexample:
  "length animations = 8
   \<and> animationIndex
        (run_frames animations (replicate 2408 True)
           \<lparr>animationIndex = 0, animationTime = 0\<rparr>) = 8"
  by (simp only: built_in_length built_in_cycle tour_state.simps simp_thms)

section \<open>Properties of the section visibility hook\<close>

lemma handleIntersection_Nil [simp]: "handleIntersection thr [] st = st"
  by (simp add: handleIntersection_def)

lemma handleIntersection_Cons [simp]:
  "handleIntersection thr (e # es) st = handleIntersection thr es (handle_entry thr e st)"
  by (simp add: handleIntersection_def)

lemma handle_entry_active:
  "activeSection (handle_entry thr e st) =
     (if sets_active thr e then entry_section e else activeSection st)"
  by (auto simp: handle_entry_def sets_active_def Let_def split: option.splits)

lemma handle_entry_calls:
  "sectionChangeCalls (handle_entry thr e st) =
     sectionChangeCalls st @ (if sets_active thr e then [the (entry_section e)] else [])"
  by (auto simp: handle_entry_def sets_active_def Let_def split: option.splits)

lemma handle_entry_visible:
  "visibleSections (handle_entry thr e st) =
     (case entry_section e of
        None \<Rightarrow> visibleSections st
      | Some s \<Rightarrow> if isIntersecting e then insert s (visibleSections st)
                  else visibleSections st - {s})"
  by (auto simp: handle_entry_def Let_def split: option.splits)

lemma handle_entry_progress:
  "sectionProgress (handle_entry thr e st) =
     (case entry_section e of
        None \<Rightarrow> sectionProgress st
      | Some s \<Rightarrow> (sectionProgress st)(s \<mapsto> intersectionRatio e))"
  by (auto simp: handle_entry_def Let_def split: option.splits)

lemma section_entry_simps [simp]:
  "s \<noteq> [] \<Longrightarrow> entry_section (section_entry s flag r) = Some s"
  "isIntersecting (section_entry s flag r) = flag"
  "intersectionRatio (section_entry s flag r) = r"
  by (simp_all add: section_entry_def entry_section_def)

lemma default_threshold [simp]: "effective_threshold None = 3 / 10"
  by (simp add: effective_threshold_def)

lemma handleIntersection_active:
  "activeSection (handleIntersection thr es st) =
     (case filter (sets_active thr) es of
        [] \<Rightarrow> activeSection st
      | q # qs \<Rightarrow> entry_section (last (q # qs)))"
proof (induction es arbitrary: st)
  case Nil
  then show ?case by simp
next
  case (Cons e es)
  show ?case
  proof (cases "filter (sets_active thr) es")
    case Nil
    with Cons.IH [of "handle_entry thr e st"] show ?thesis
      by (simp add: handle_entry_active)
  next
    case (Cons q qs)
    with Cons.IH [of "handle_entry thr e st"] show ?thesis
      by simp
  qed
qed

text \<open>
  C2, as the hook has it. The hook does not consult the order of the sections and never
  resets the active section to none. A batch without an entry that is intersecting with
  a ratio strictly above the threshold leaves the active section as it was. Otherwise
  the active section becomes the section of one of the batch's entries that are; when
  these entries all report the same ratio, it is the section of the last of them in the
  batch, whatever the positions of the sections.

  The counterexample is the tie of the claim: the sections at positions 2 and 5 both
  report the ratio 0.5, position 2 first. The hook makes the section at position 5
  active; the specification's choice is the one at position 2. Its last part shows a
  section that stays active after the visible set has become empty.
\<close>

theorem active_section_after_batch:
  "(filter (sets_active thr) es = [] \<longrightarrow>
      activeSection (handleIntersection thr es st) = activeSection st)
   \<and> (filter (sets_active thr) es \<noteq> [] \<longrightarrow>
        (\<exists>e \<in> set es. sets_active thr e
           \<and> activeSection (handleIntersection thr es st) = entry_section e))
   \<and> (\<forall>q qs. filter (sets_active thr) es = q # qs
          \<and> (\<forall>e \<in> set qs. intersectionRatio e = intersectionRatio q)
        \<longrightarrow> activeSection (handleIntersection thr es st) = entry_section (last (q # qs)))"
proof -
  have none: "activeSection (handleIntersection thr es st) = activeSection st"
    if "filter (sets_active thr) es = []"
    using that by (simp add: handleIntersection_active)
  have last: "activeSection (handleIntersection thr es st) = entry_section (last (q # qs))"
    if "filter (sets_active thr) es = q # qs" for q qs
    using that by (simp add: handleIntersection_active)
  have some: "\<exists>e \<in> set es. sets_active thr e
           \<and> activeSection (handleIntersection thr es st) = entry_section e"
    if "filter (sets_active thr) es \<noteq> []"
  proof -
    from that obtain q qs where split: "filter (sets_active thr) es = q # qs"
      by (cases "filter (sets_active thr) es") simp_all
    have "last (q # qs) \<in> set (q # qs)" by (rule last_in_set) simp
    with split have "last (q # qs) \<in> set (filter (sets_active thr) es)" by simp
    then have "last (q # qs) \<in> set es" and "sets_active thr (last (q # qs))"
      by simp_all
    with last [OF split] show ?thesis by blast
  qed
  from none some last show ?thesis by blast
qed

theorem active_section_after_batch_witness:
  "activeSection
     (handleIntersection None [section_entry ''skills'' True 0.1]
        (handleIntersection None [section_entry ''about'' True 0.7] initial_visibility))
   = Some ''about''
   \<and> activeSection
       (handleIntersection None
          [section_entry ''projects'' True 0.5, section_entry ''contact'' True 0.5]
          initial_visibility)
     = Some ''contact''"
proof -
  let ?tie = "[section_entry ''projects'' True 0.5, section_entry ''contact'' True 0.5]"
  have before: "activeSection
      (handleIntersection None [section_entry ''about'' True 0.7] initial_visibility)
      = Some ''about''"
    by (simp add: handle_entry_active sets_active_def)
  have quiet: "filter (sets_active None) [section_entry ''skills'' True 0.1] = []"
    by (simp add: sets_active_def)
  have tie: "filter (sets_active None) ?tie = ?tie"
    by (simp add: sets_active_def)
  from active_section_after_batch
    [of None "[section_entry ''skills'' True 0.1]"
        "handleIntersection None [section_entry ''about'' True 0.7] initial_visibility"]
    active_section_after_batch [of None ?tie initial_visibility]
    before quiet tie
  show ?thesis by simp
qed

theorem active_section_tie_counterexample:
  "page_sections ! 2 = ''projects'' \<and> page_sections ! 5 = ''contact''
   \<and> activeSection
        (handleIntersection None
           [section_entry ''projects'' True 0.5, section_entry ''contact'' True 0.5]
           initial_visibility)
     = Some ''contact''
   \<and> focused_by_ratio page_sections
        (visibleSections
           (handleIntersection None
              [section_entry ''projects'' True 0.5, section_entry ''contact'' True 0.5]
              initial_visibility))
        (sectionProgress
           (handleIntersection None
              [section_entry ''projects'' True 0.5, section_entry ''contact'' True 0.5]
              initial_visibility))
     = Some ''projects''
   \<and> visibleSections
        (handleIntersection None
           [section_entry ''projects'' True 0.5, section_entry ''projects'' False 0]
           initial_visibility)
     = {}
   \<and> activeSection
        (handleIntersection None
           [section_entry ''projects'' True 0.5, section_entry ''projects'' False 0]
           initial_visibility)
     = Some ''projects''"
  by (simp add: page_sections_def handle_entry_active handle_entry_visible
      handle_entry_progress sets_active_def initial_visibility_def
      focused_by_ratio_def ratio_of_def)

text \<open>
  C3, as the hook has it. An update that sets the active section puts that section
  into the visible set at the same time, so the active section is a member of the
  visible set right after the update that made it active; any other update leaves the
  active section as it was, also when it removes that section from the visible set.

  The counterexample: a section becomes active and then reports that it no longer
  intersects. It is still the active section and no longer a member of the visible set.
\<close>

theorem active_section_member_when_set:
  "(sets_active thr e \<longrightarrow>
      (\<exists>s. entry_section e = Some s \<and> activeSection (handle_entry thr e st) = Some s
           \<and> s \<in> visibleSections (handle_entry thr e st)))
   \<and> (\<not> sets_active thr e \<longrightarrow> activeSection (handle_entry thr e st) = activeSection st)"
  by (auto simp: handle_entry_active handle_entry_visible sets_active_def)

theorem active_section_member_when_set_witness:
  "sets_active None (section_entry ''about'' True 0.5)
   \<and> activeSection (handle_entry None (section_entry ''about'' True 0.5) initial_visibility)
       = Some ''about''
   \<and> ''about'' \<in>
       visibleSections (handle_entry None (section_entry ''about'' True 0.5) initial_visibility)
   \<and> \<not> sets_active None (section_entry ''about'' False 0)
   \<and> activeSection
       (handle_entry None (section_entry ''about'' False 0)
          (handle_entry None (section_entry ''about'' True 0.5) initial_visibility))
     = activeSection (handle_entry None (section_entry ''about'' True 0.5) initial_visibility)"
proof -
  have yes: "sets_active None (section_entry ''about'' True 0.5)"
    and no: "\<not> sets_active None (section_entry ''about'' False 0)"
    by (simp_all add: sets_active_def)
  from active_section_member_when_set
    [of None "section_entry ''about'' True 0.5" initial_visibility]
    active_section_member_when_set
    [of None "section_entry ''about'' False 0"
        "handle_entry None (section_entry ''about'' True 0.5) initial_visibility"]
    yes no
  show ?thesis by simp
qed

theorem active_section_not_visible_counterexample:
  "activeSection
     (handleIntersection None
        [section_entry ''about'' True 0.5, section_entry ''about'' False 0]
        initial_visibility)
   = Some ''about''
   \<and> ''about'' \<notin>
     visibleSections
       (handleIntersection None
          [section_entry ''about'' True 0.5, section_entry ''about'' False 0]
          initial_visibility)"
  by (simp add: handle_entry_active handle_entry_visible sets_active_def
      initial_visibility_def)

text \<open>
  C4, as the hook has it. The hook does not compare the new active section with the
  previous one: \<open>onSectionChange\<close> is called once for every processed entry that is
  intersecting with a ratio strictly above the threshold, with that entry's section,
  whether or not the active section changes.

  The counterexample: one section reports the ratio 0.5 and then 0.7. The active
  section is the same after both updates, and the callback has been called twice.
\<close>

theorem section_change_called_per_qualifying_entry:
  "sectionChangeCalls (handleIntersection thr es st) =
     sectionChangeCalls st @ map (\<lambda>e. the (entry_section e)) (filter (sets_active thr) es)"
  by (induction es arbitrary: st) (simp_all add: handle_entry_calls)

theorem section_change_called_per_qualifying_entry_witness:
  "sectionChangeCalls
     (handleIntersection None
        [section_entry ''about'' True 0.5, section_entry ''about'' True 0.2,
         section_entry ''projects'' True 0.9]
        initial_visibility)
   = [''about'', ''projects'']"
  using section_change_called_per_qualifying_entry
    [of None "[section_entry ''about'' True 0.5, section_entry ''about'' True 0.2,
               section_entry ''projects'' True 0.9]" initial_visibility]
  by (simp add: sets_active_def initial_visibility_def)

theorem section_change_repeated_counterexample:
  "activeSection
     (handleIntersection None [section_entry ''about'' True 0.5] initial_visibility)
   = activeSection
       (handleIntersection None
          [section_entry ''about'' True 0.5, section_entry ''about'' True 0.7]
          initial_visibility)
   \<and> sectionChangeCalls
       (handleIntersection None
          [section_entry ''about'' True 0.5, section_entry ''about'' True 0.7]
          initial_visibility)
     = [''about'', ''about'']"
  by (simp add: handle_entry_active handle_entry_calls sets_active_def
      initial_visibility_def)

text \<open>
  C5, as the hook has it. Membership in the visible set follows the entry's
  \<open>isIntersecting\<close> flag and not its ratio: after an update for a section, the section
  is a member of the visible set exactly when the entry was intersecting.

  The counterexample: a section reports that it intersects with the ratio 0.1, below
  the default threshold 0.3, and is a member of the visible set.
\<close>

theorem visible_iff_isIntersecting:
  "entry_section e = Some s \<Longrightarrow>
     (s \<in> visibleSections (handle_entry thr e st) \<longleftrightarrow> isIntersecting e)"
  by (simp add: handle_entry_visible)

theorem visible_iff_isIntersecting_witness:
  "entry_section (section_entry ''about'' False 0.9) = Some ''about''
   \<and> ''about'' \<notin>
       visibleSections
         (handle_entry None (section_entry ''about'' False 0.9)
            (handle_entry None (section_entry ''about'' True 0.9) initial_visibility))"
proof -
  have h: "entry_section (section_entry ''about'' False 0.9) = Some ''about''" by simp
  from visible_iff_isIntersecting [OF h, of None
      "handle_entry None (section_entry ''about'' True 0.9) initial_visibility"] h
  show ?thesis by simp
qed

theorem visible_below_threshold_counterexample:
  "''about'' \<in>
     visibleSections (handle_entry None (section_entry ''about'' True 0.1) initial_visibility)
   \<and> \<not> effective_threshold None \<le> 0.1"
  by (simp add: handle_entry_visible)

section \<open>Properties of the map animation hook\<close>

lemma fold_preserves:
  assumes "\<And>k v. P v \<Longrightarrow> P (f k v)" and "P w"
  shows "P (fold f ks w)"
  using assms(2) by (induction ks arbitrary: w) (simp_all add: assms(1))

lemma settle_current_settled_as:
  "settled_as p xs w \<Longrightarrow> settled_as p xs (settle_current s w)"
  by (auto simp: settled_as_def settle_current_def settlements_of_def split: option.splits)

lemma settle_current_tracked:
  "tracked p w \<Longrightarrow> tracked p (settle_current s w)"
  by (auto simp: tracked_def settle_current_def settlements_of_def split: option.splits)

lemma settle_current_ids_fresh:
  "ids_fresh w \<Longrightarrow> ids_fresh (settle_current s w)"
  by (auto simp: ids_fresh_def settle_current_def split: option.splits)

lemma settle_current_first:
  assumes "p < nextPromise w" and "animationPromiseRef w = Some p"
    and "settlements_of p w = []"
  shows "settled_as p [s] (settle_current s w)"
  using assms by (simp add: settled_as_def settle_current_def settlements_of_def)

lemma listener_update_settled_as [simp]:
  "settled_as p xs (w\<lparr>isAnimatingRef := a, moveendListeners := ms, errorListeners := es\<rparr>)
     = settled_as p xs w"
  "settled_as p xs (w\<lparr>moveendListeners := ms\<rparr>) = settled_as p xs w"
  "settled_as p xs (w\<lparr>errorListeners := es\<rparr>) = settled_as p xs w"
  "settled_as p xs (w\<lparr>isAnimatingRef := a\<rparr>) = settled_as p xs w"
  by (simp_all add: settled_as_def settlements_of_def)

lemma listener_update_tracked [simp]:
  "tracked p (w\<lparr>isAnimatingRef := a, moveendListeners := ms, errorListeners := es\<rparr>)
     = tracked p w"
  "tracked p (w\<lparr>moveendListeners := ms\<rparr>) = tracked p w"
  "tracked p (w\<lparr>errorListeners := es\<rparr>) = tracked p w"
  "tracked p (w\<lparr>isAnimatingRef := a\<rparr>) = tracked p w"
  by (simp_all add: tracked_def settlements_of_def)

lemma listener_update_ids_fresh [simp]:
  "ids_fresh (w\<lparr>isAnimatingRef := a, moveendListeners := ms, errorListeners := es\<rparr>)
     = ids_fresh w"
  "ids_fresh (w\<lparr>moveendListeners := ms\<rparr>) = ids_fresh w"
  "ids_fresh (w\<lparr>errorListeners := es\<rparr>) = ids_fresh w"
  "ids_fresh (w\<lparr>isAnimatingRef := a\<rparr>) = ids_fresh w"
  by (simp_all add: ids_fresh_def)

lemma flyToRegion_settled_as:
  "settled_as p xs w \<Longrightarrow> settled_as p xs (snd (flyToRegion m d thr region w))"
  by (auto simp: flyToRegion_def Let_def settled_as_def settlements_of_def
      split: option.splits)

lemma flyToRegion_tracked:
  "tracked p w \<Longrightarrow> tracked p (snd (flyToRegion m d thr region w))"
  by (auto simp: flyToRegion_def Let_def tracked_def settlements_of_def
      split: option.splits)

lemma flyToRegion_ids_fresh:
  "ids_fresh w \<Longrightarrow> ids_fresh (snd (flyToRegion m d thr region w))"
  by (fastforce simp: flyToRegion_def Let_def ids_fresh_def split: option.splits)

lemma step_settled_as: "settled_as p xs w \<Longrightarrow> settled_as p xs (step d ev w)"
proof (cases ev)
  case (CallFlyTo m thr region)
  then show "settled_as p xs w \<Longrightarrow> ?thesis" by (simp add: flyToRegion_settled_as)
next
  case MoveEnd
  then show "settled_as p xs w \<Longrightarrow> ?thesis"
    by (simp add: fire_moveend_def onMoveEnd_def fold_preserves settle_current_settled_as)
next
  case (ErrorEvent e)
  then show "settled_as p xs w \<Longrightarrow> ?thesis"
    by (simp add: fire_error_def onError_def fold_preserves settle_current_settled_as)
next
  case Unmount
  then show "settled_as p xs w \<Longrightarrow> ?thesis"
    by (simp add: unmount_def settle_current_settled_as)
qed

lemma step_tracked: "tracked p w \<Longrightarrow> tracked p (step d ev w)"
proof (cases ev)
  case (CallFlyTo m thr region)
  then show "tracked p w \<Longrightarrow> ?thesis" by (simp add: flyToRegion_tracked)
next
  case MoveEnd
  then show "tracked p w \<Longrightarrow> ?thesis"
    by (simp add: fire_moveend_def onMoveEnd_def fold_preserves settle_current_tracked)
next
  case (ErrorEvent e)
  then show "tracked p w \<Longrightarrow> ?thesis"
    by (simp add: fire_error_def onError_def fold_preserves settle_current_tracked)
next
  case Unmount
  then show "tracked p w \<Longrightarrow> ?thesis"
    by (simp add: unmount_def settle_current_tracked)
qed

lemma step_ids_fresh: "ids_fresh w \<Longrightarrow> ids_fresh (step d ev w)"
proof (cases ev)
  case (CallFlyTo m thr region)
  then show "ids_fresh w \<Longrightarrow> ?thesis" by (simp add: flyToRegion_ids_fresh)
next
  case MoveEnd
  then show "ids_fresh w \<Longrightarrow> ?thesis"
    by (simp add: fire_moveend_def onMoveEnd_def fold_preserves settle_current_ids_fresh)
next
  case (ErrorEvent e)
  then show "ids_fresh w \<Longrightarrow> ?thesis"
    by (simp add: fire_error_def onError_def fold_preserves settle_current_ids_fresh)
next
  case Unmount
  then show "ids_fresh w \<Longrightarrow> ?thesis"
    by (simp add: unmount_def settle_current_ids_fresh)
qed

lemma run_settled_as: "settled_as p xs w \<Longrightarrow> settled_as p xs (run d evs w)"
  unfolding run_def by (rule fold_preserves) (rule step_settled_as)

lemma run_tracked: "tracked p w \<Longrightarrow> tracked p (run d evs w)"
  unfolding run_def by (rule fold_preserves) (rule step_tracked)

lemma run_ids_fresh: "ids_fresh w \<Longrightarrow> ids_fresh (run d evs w)"
  unfolding run_def by (rule fold_preserves) (rule step_ids_fresh)

lemma ids_fresh_initial: "ids_fresh initial_world"
  by (simp add: ids_fresh_def initial_world_def)

lemma ids_fresh_unsettled:
  "ids_fresh w \<Longrightarrow> settlements_of (nextPromise w) w = []"
  by (auto simp: ids_fresh_def settlements_of_def filter_empty_conv)


lemma fire_moveend_first:
  assumes "moveendListeners w \<noteq> []" and "p < nextPromise w"
    and "animationPromiseRef w = Some p" and "settlements_of p w = []"
  shows "settled_as p [Resolved True] (fire_moveend w)"
proof (cases "moveendListeners w")
  case Nil
  with assms(1) show ?thesis by simp
next
  case (Cons k ks)
  let ?h = "\<lambda>k v. onMoveEnd k (v\<lparr>moveendListeners := removeAll k (moveendListeners v)\<rparr>)"
  have "settled_as p [Resolved True] (?h k w)"
    unfolding onMoveEnd_def
    by (rule settle_current_first) (use assms in \<open>simp_all add: settlements_of_def\<close>)
  then have "settled_as p [Resolved True] (fold ?h ks (?h k w))"
    by (rule fold_preserves [rotated])
      (simp add: onMoveEnd_def settle_current_settled_as)
  with Cons show ?thesis by (simp add: fire_moveend_def)
qed

lemma fire_error_first:
  assumes "errorListeners w \<noteq> []" and "p < nextPromise w"
    and "animationPromiseRef w = Some p" and "settlements_of p w = []"
  shows "settled_as p [Rejected e] (fire_error e w)"
proof (cases "errorListeners w")
  case Nil
  with assms(1) show ?thesis by simp
next
  case (Cons k ks)
  let ?h = "\<lambda>k v. onError e k (v\<lparr>errorListeners := removeAll k (errorListeners v)\<rparr>)"
  have "settled_as p [Rejected e] (?h k w)"
    unfolding onError_def
    by (rule settle_current_first) (use assms in \<open>simp_all add: settlements_of_def\<close>)
  then have "settled_as p [Rejected e] (fold ?h ks (?h k w))"
    by (rule fold_preserves [rotated])
      (simp add: onError_def settle_current_settled_as)
  with Cons show ?thesis by (simp add: fire_error_def)
qed

lemma flyToRegion_started:
  assumes "ids_fresh w0" and "\<not> isAnimatingRef w0"
    and "flyToRegion True d None region w0 = (p, w1)"
  shows "p < nextPromise w1" and "animationPromiseRef w1 = Some p"
    and "settlements_of p w1 = []"
    and "moveendListeners w1 \<noteq> []" and "errorListeners w1 \<noteq> []"
proof -
  from assms(2,3) have p: "p = nextPromise w0"
    and w1: "w1 = w0\<lparr>nextPromise := nextPromise w0 + 1, isAnimatingRef := True,
        animationPromiseRef := Some (nextPromise w0),
        flyToCalls := flyToCalls w0 @
          [\<lparr>flyCenter = center region, flyZoom = zoom region, flyBearing = bearing region,
            flyPitch = pitch region, flyDuration = d\<rparr>],
        moveendListeners := moveendListeners w0 @ [nextPromise w0],
        errorListeners := errorListeners w0 @ [nextPromise w0]\<rparr>"
    by (auto simp: flyToRegion_def Let_def)
  from ids_fresh_unsettled [OF assms(1)] have "settlements_of p w0 = []"
    by (simp add: p)
  then show "settlements_of p w1 = []" by (simp add: w1 settlements_of_def)
  show "p < nextPromise w1" "animationPromiseRef w1 = Some p"
    "moveendListeners w1 \<noteq> []" "errorListeners w1 \<noteq> []"
    by (simp_all add: p w1)
qed

lemma run_Nil [simp]: "run d [] w = w"
  by (simp add: run_def)

lemma run_Cons [simp]: "run d (ev # evs) w = run d evs (step d ev w)"
  by (simp add: run_def)

lemma first_call_result:
  "flyToRegion True 2000 None makati initial_world =
     (0, \<lparr>isAnimatingRef = True, animationPromiseRef = Some 0, nextPromise = 1,
          settleCalls = [],
          flyToCalls = [\<lparr>flyCenter = center makati, flyZoom = zoom makati,
                         flyBearing = bearing makati, flyPitch = pitch makati,
                         flyDuration = 2000\<rparr>],
          moveendListeners = [0], errorListeners = [0]\<rparr>)"
  by (simp add: flyToRegion_def initial_world_def Let_def)

text \<open>
  C9. Take any world the hook can be in, and a call of \<open>flyToRegion\<close> there that starts
  an animation: the map is present, no animation is in progress and \<open>flyTo\<close> does not
  throw. Whatever happens afterwards (events, further calls, the unmount), the functions
  of the returned promise are invoked at most once. If the next thing to happen is a
  \<open>moveend\<close> event, the one invocation is \<open>resolve(true)\<close>; if it is an \<open>error\<close> event,
  it is \<open>reject\<close> with that error; every later signal leaves the promise as it is.
\<close>

theorem flyToRegion_settles_at_most_once:
  assumes "w0 = run d evs0 initial_world" and "\<not> isAnimatingRef w0"
    and "flyToRegion True d None region w0 = (p, w1)"
  shows "length (settlements_of p (run d evs w1)) \<le> 1
       \<and> settlements_of p (run d (MoveEnd # evs) w1) = [Resolved True]
       \<and> settlements_of p (run d (ErrorEvent e # evs) w1) = [Rejected e]"
proof -
  have fresh: "ids_fresh w0"
    unfolding assms(1) by (rule run_ids_fresh [OF ids_fresh_initial])
  note started = flyToRegion_started [OF fresh assms(2,3)]
  from started(1-3) have "tracked p w1" by (simp add: tracked_def)
  then have "tracked p (run d evs w1)" by (rule run_tracked)
  then have once: "length (settlements_of p (run d evs w1)) \<le> 1"
    by (simp add: tracked_def)
  have "settled_as p [Resolved True] (fire_moveend w1)"
    by (rule fire_moveend_first [OF started(4,1,2,3)])
  then have "settled_as p [Resolved True] (run d evs (fire_moveend w1))"
    by (rule run_settled_as)
  then have moved: "settlements_of p (run d (MoveEnd # evs) w1) = [Resolved True]"
    by (simp add: settled_as_def run_def)
  have "settled_as p [Rejected e] (fire_error e w1)"
    by (rule fire_error_first [OF started(5,1,2,3)])
  then have "settled_as p [Rejected e] (run d evs (fire_error e w1))"
    by (rule run_settled_as)
  then have failed: "settlements_of p (run d (ErrorEvent e # evs) w1) = [Rejected e]"
    by (simp add: settled_as_def run_def)
  from once moved failed show ?thesis by blast
qed


theorem flyToRegion_settles_at_most_once_witness:
  "\<not> isAnimatingRef (run 2000 [] initial_world)
   \<and> length (settlements_of 0
        (run 2000 [ErrorEvent ''tile'', MoveEnd, Unmount]
           (snd (flyToRegion True 2000 None makati initial_world)))) \<le> 1
   \<and> settlements_of 0
        (run 2000 [MoveEnd, ErrorEvent ''tile'', MoveEnd, Unmount]
           (snd (flyToRegion True 2000 None makati initial_world))) = [Resolved True]
   \<and> settlements_of 0
        (run 2000 [ErrorEvent ''style'', ErrorEvent ''tile'', MoveEnd, Unmount]
           (snd (flyToRegion True 2000 None makati initial_world))) = [Rejected ''style'']"
proof -
  have h1: "run 2000 [] initial_world = run 2000 [] initial_world" by simp
  have h2: "\<not> isAnimatingRef (run 2000 [] initial_world)"
    by (simp add: initial_world_def)
  have h3: "flyToRegion True 2000 None makati (run 2000 [] initial_world)
      = (0, snd (flyToRegion True 2000 None makati initial_world))"
    by (simp add: first_call_result)
  from flyToRegion_settles_at_most_once
    [OF h1 h2 h3, of "[ErrorEvent ''tile'', MoveEnd, Unmount]" "''style''"] h2
  show ?thesis by simp
qed

text \<open>
  C10. A call of \<open>flyToRegion\<close> without a map instance, or while an animation is in
  progress, returns a promise resolved with \<open>false\<close>. The map's \<open>flyTo\<close> is not called,
  and the two refs, the listeners and every other promise are as they were.
\<close>

theorem flyToRegion_refuses_without_map_or_while_animating:
  assumes "w = run d evs initial_world" and "\<not> mapInstance \<or> isAnimatingRef w"
    and "flyToRegion mapInstance d flyToThrows region w = (p, w')"
  shows "promise_state p w' = Some (Resolved False)
       \<and> flyToCalls w' = flyToCalls w
       \<and> isAnimatingRef w' = isAnimatingRef w
       \<and> animationPromiseRef w' = animationPromiseRef w
       \<and> moveendListeners w' = moveendListeners w
       \<and> errorListeners w' = errorListeners w
       \<and> (\<forall>q. q \<noteq> p \<longrightarrow> settlements_of q w' = settlements_of q w)"
proof -
  have fresh: "ids_fresh w"
    unfolding assms(1) by (rule run_ids_fresh [OF ids_fresh_initial])
  from assms(2,3) have p: "p = nextPromise w"
    and w': "w' = w\<lparr>nextPromise := nextPromise w + 1,
                    settleCalls := settleCalls w @ [(nextPromise w, Resolved False)]\<rparr>"
    by (auto simp: flyToRegion_def Let_def)
  from ids_fresh_unsettled [OF fresh] have "settlements_of p w' = [Resolved False]"
    by (simp add: p w' settlements_of_def)
  then have "promise_state p w' = Some (Resolved False)"
    by (simp add: promise_state_def)
  moreover have "\<forall>q. q \<noteq> p \<longrightarrow> settlements_of q w' = settlements_of q w"
    by (simp add: p w' settlements_of_def)
  ultimately show ?thesis by (simp add: w')
qed

theorem flyToRegion_refuses_without_map_or_while_animating_witness:
  "isAnimatingRef (run 2000 [CallFlyTo True None makati] initial_world)
   \<and> promise_state 1
       (snd (flyToRegion True 2000 None makati
              (run 2000 [CallFlyTo True None makati] initial_world))) = Some (Resolved False)
   \<and> flyToCalls
       (snd (flyToRegion True 2000 None makati
              (run 2000 [CallFlyTo True None makati] initial_world)))
     = flyToCalls (run 2000 [CallFlyTo True None makati] initial_world)
   \<and> animationPromiseRef
       (snd (flyToRegion True 2000 None makati
              (run 2000 [CallFlyTo True None makati] initial_world))) = Some 0"
proof -
  let ?w = "run 2000 [CallFlyTo True None makati] initial_world"
  have h1: "?w = run 2000 [CallFlyTo True None makati] initial_world" by simp
  have h2: "\<not> True \<or> isAnimatingRef ?w" by (simp add: first_call_result)
  have h3: "flyToRegion True 2000 None makati ?w
      = (1, snd (flyToRegion True 2000 None makati ?w))"
    by (simp add: flyToRegion_def initial_world_def Let_def)
  from flyToRegion_refuses_without_map_or_while_animating [OF h1 h2 h3] h2
  show ?thesis by (simp add: first_call_result)
qed

end
